theory Spec2Isabelle
  imports Complex_Main "HOL-Library.While_Combinator"
begin

section \<open>The node record (model.py)\<close>

text \<open>
  \<^verbatim>\<open>DlgRow\<close> is a mutable dataclass. Python integers are unbounded (\<open>int\<close>), the
  optional fields are \<open>int option\<close>, text fields are strings. A row list that Python
  mutates in place is a list of records that every operation returns updated. The field
  \<^verbatim>\<open>next\<close> is written \<open>nxt\<close>, \<open>next\<close> being a keyword of the proof language.
\<close>

record DlgRow =
  index :: int
  male :: string
  female :: string
  nxt :: "int option"
  condition :: string
  action :: string
  unknown01 :: string
  unknown02 :: string
  unknown03 :: string
  unknown04 :: string
  unknown05 :: string
  unknown06 :: string
  malkavian :: string
  parent_npc :: "int option"

definition is_pc_reply :: "DlgRow \<Rightarrow> bool" where
  "is_pc_reply r = (nxt r \<noteq> None)"

text \<open>
  Python's \<^verbatim>\<open>str.strip()\<close> removes white space; a field is blank when nothing is left.
  Characters are code points below 256; these are the ones \<^verbatim>\<open>str.isspace\<close> accepts.
\<close>

definition py_isspace :: "char \<Rightarrow> bool" where
  "py_isspace c = (of_char c \<in> set [9, 10, 11, 12, 13, 28, 29, 30, 31, 32, 133, 160 :: nat])"

definition blank :: "string \<Rightarrow> bool" where
  "blank s = list_all py_isspace s"

definition is_empty_separator :: "DlgRow \<Rightarrow> bool" where
  "is_empty_separator r =
    (if is_pc_reply r then False
     else if list_ex (\<lambda>s. \<not> blank s)
          [unknown01 r, unknown02 r, unknown03 r, unknown04 r, unknown05 r, unknown06 r,
           malkavian r] then False
     else if list_ex (\<lambda>s. \<not> blank s) [male r, female r, condition r, action r] then False
     else True)"

text \<open>
  Rows for concrete inputs: \<open>mk_row i n p\<close> has index, \<open>next\<close> and \<open>parent_npc\<close> as
  given and a one-letter text, \<open>mk_blank i\<close> is an NPC line with every text field empty.
\<close>

definition mk_blank :: "int \<Rightarrow> DlgRow" where
  "mk_blank i = \<lparr> index = i, male = [], female = [], nxt = None, condition = [],
     action = [], unknown01 = [], unknown02 = [], unknown03 = [], unknown04 = [],
     unknown05 = [], unknown06 = [], malkavian = [], parent_npc = None \<rparr>"


definition mk_row :: "int \<Rightarrow> int option \<Rightarrow> int option \<Rightarrow> DlgRow" where
  "mk_row i n p = \<lparr> index = i, male = ''x'', female = [], nxt = n, condition = [],
     action = [], unknown01 = [], unknown02 = [], unknown03 = [], unknown04 = [],
     unknown05 = [], unknown06 = [], malkavian = [], parent_npc = p \<rparr>"

text \<open>A position is a pair of floats; the model computes with exact rationals.\<close>

type_synonym pos = "rat \<times> rat"

text \<open>The exceptions that the modelled code raises, as values.\<close>

datatype error = ValueError int | StopIteration | KeyError int | KeyErrorName string
  | TypeError | AttributeError

section \<open>Renumbering (\<^verbatim>\<open>MainWindow._shift_indices_from\<close>)\<close>

text \<open>
  The loop over \<^verbatim>\<open>self.dlg_data\<close> rewrites each row in place, the three fields one after
  the other. The second half of the method re-keys the table of scene items; the write
  \<^verbatim>\<open>node.data.index = new_idx\<close> there stores, into the row object that the item shares
  with \<^verbatim>\<open>dlg_data\<close>, the value the first loop has already given it.
\<close>

definition shift_idx :: "int \<Rightarrow> int \<Rightarrow> int \<Rightarrow> int" where
  "shift_idx start_id delta i = (if i \<ge> start_id then i + delta else i)"

definition shift_row :: "int \<Rightarrow> int \<Rightarrow> DlgRow \<Rightarrow> DlgRow" where
  "shift_row start_id delta r =
    (let r1 = (if index r \<ge> start_id then r\<lparr>index := index r + delta\<rparr> else r);
         r2 = (case nxt r1 of
                 Some n \<Rightarrow> if is_pc_reply r1 \<and> n \<ge> start_id
                           then r1\<lparr>nxt := Some (n + delta)\<rparr> else r1
               | None \<Rightarrow> r1);
         r3 = (case parent_npc r2 of
                 Some p \<Rightarrow> if p \<ge> start_id then r2\<lparr>parent_npc := Some (p + delta)\<rparr> else r2
               | None \<Rightarrow> r2)
     in r3)"

definition shift_indices_from :: "int \<Rightarrow> int \<Rightarrow> DlgRow list \<Rightarrow> DlgRow list" where
  "shift_indices_from start_id delta rows = map (shift_row start_id delta) rows"

text \<open>A reference resolves when some row of the collection carries that index.\<close>

definition resolves :: "DlgRow list \<Rightarrow> int option \<Rightarrow> bool" where
  "resolves rows ref = (case ref of None \<Rightarrow> True | Some t \<Rightarrow> t \<in> set (map index rows))"

definition refs_ok :: "DlgRow list \<Rightarrow> bool" where
  "refs_ok rows = list_all (\<lambda>r. resolves rows (nxt r) \<and> resolves rows (parent_npc r)) rows"


section \<open>Connectivity (layout.py)\<close>

text \<open>
  \<^verbatim>\<open>_ensure_parents\<close> scans the rows in order, remembers the index of the last NPC line
  and stores it into every reply whose \<^verbatim>\<open>parent_npc\<close> is still unset. It writes into the
  caller's row objects: the model returns the rows as the call leaves them.
\<close>

fun ensure_parents_from :: "int option \<Rightarrow> DlgRow list \<Rightarrow> DlgRow list" where
  "ensure_parents_from current_npc [] = []"
| "ensure_parents_from current_npc (r # rs) =
    (if \<not> is_pc_reply r then r # ensure_parents_from (Some (index r)) rs
     else if parent_npc r = None
       then r\<lparr>parent_npc := current_npc\<rparr> # ensure_parents_from current_npc rs
       else r # ensure_parents_from current_npc rs)"

definition ensure_parents :: "DlgRow list \<Rightarrow> DlgRow list" where
  "ensure_parents rows = ensure_parents_from None rows"

text \<open>
  \<^verbatim>\<open>{r.index: r for r in rows}\<close>: of two rows with one index the later one stays.
  \<^verbatim>\<open>nodes_map[idx]\<close> raises \<^verbatim>\<open>KeyError\<close> for an absent key.
\<close>

definition nodes_map :: "DlgRow list \<Rightarrow> int \<rightharpoonup> DlgRow" where
  "nodes_map rows = map_of (rev (map (\<lambda>r. (index r, r)) rows))"

definition children :: "DlgRow list \<Rightarrow> int \<Rightarrow> int list" where
  "children rows idx = map index (filter (\<lambda>x. parent_npc x = Some idx) rows)"

text \<open>The inner \<^verbatim>\<open>for ch in children\<close>: an unvisited child is marked and queued.\<close>

fun visit_children :: "int list \<Rightarrow> int set \<times> int list \<Rightarrow> int set \<times> int list" where
  "visit_children [] (visited, dq) = (visited, dq)"
| "visit_children (ch # chs) (visited, dq) =
    (if ch \<notin> visited then visit_children chs (insert ch visited, dq @ [ch])
     else visit_children chs (visited, dq))"

text \<open>The step from a reply to the line it leads to, taken when that line exists.\<close>

definition visit_next :: "DlgRow list \<Rightarrow> DlgRow \<Rightarrow> int set \<times> int list \<Rightarrow> int set \<times> int list" where
  "visit_next rows node vd =
    (case nxt node of
       None \<Rightarrow> vd
     | Some n \<Rightarrow>
         if is_pc_reply node \<and> n \<in> dom (nodes_map rows)
         then (if n \<notin> fst vd then (insert n (fst vd), snd vd @ [n]) else vd)
         else vd)"

text \<open>
  The measure of the \<^verbatim>\<open>while dq\<close> loops: every index that enters the queue is an index
  of a row that was not visited before, and every turn takes one index out.
\<close>

definition unvisited :: "DlgRow list \<Rightarrow> int set \<Rightarrow> nat" where
  "unvisited rows visited = card (set (map index rows) - visited)"

lemma unvisited_insert:
  "x \<in> set (map index rows) \<Longrightarrow> x \<notin> visited \<Longrightarrow>
   unvisited rows (insert x visited) < unvisited rows visited"
  unfolding unvisited_def
  by (intro psubset_card_mono) auto

lemma visit_children_measure:
  "set chs \<subseteq> set (map index rows) \<Longrightarrow>
   2 * unvisited rows (fst (visit_children chs (visited, dq)))
     + length (snd (visit_children chs (visited, dq)))
   \<le> 2 * unvisited rows visited + length dq"
proof (induction chs arbitrary: visited dq)
  case Nil
  then show ?case by simp
next
  case (Cons ch chs)
  show ?case
  proof (cases "ch \<in> visited")
    case True
    then show ?thesis using Cons.IH[of visited dq] Cons.prems by simp
  next
    case False
    have "unvisited rows (insert ch visited) < unvisited rows visited"
      using Cons.prems False by (intro unvisited_insert) auto
    then show ?thesis
      using Cons.IH[of "insert ch visited" "dq @ [ch]"] Cons.prems False by simp
  qed
qed

lemma dom_nodes_map: "dom (nodes_map rows) = set (map index rows)"
  by (force simp: nodes_map_def dom_map_of_conv_image_fst image_iff)

lemma visit_next_measure:
  "2 * unvisited rows (fst (visit_next rows node vd)) + length (snd (visit_next rows node vd))
   \<le> 2 * unvisited rows (fst vd) + length (snd vd)"
proof (cases "nxt node")
  case None
  then show ?thesis by (simp add: visit_next_def)
next
  case (Some n)
  show ?thesis
  proof (cases "is_pc_reply node \<and> n \<in> dom (nodes_map rows) \<and> n \<notin> fst vd")
    case True
    then have "unvisited rows (insert n (fst vd)) < unvisited rows (fst vd)"
      by (intro unvisited_insert) (simp_all add: dom_nodes_map)
    with True Some show ?thesis by (simp add: visit_next_def)
  next
    case False
    with Some show ?thesis by (auto simp: visit_next_def)
  qed
qed

lemma children_subset: "set (children rows idx) \<subseteq> set (map index rows)"
  by (auto simp: children_def)

text \<open>
  The \<^verbatim>\<open>while dq\<close> loop of \<^verbatim>\<open>_build_components\<close> for one seed; it returns the visited
  set and the component.
\<close>

function bfs_component ::
  "DlgRow list \<Rightarrow> int list \<Rightarrow> int set \<Rightarrow> int set \<Rightarrow> error + (int set \<times> int set)" where
  "bfs_component rows [] visited comp_s = Inr (visited, comp_s)"
| "bfs_component rows (idx # dq) visited comp_s =
    (case nodes_map rows idx of
       None \<Rightarrow> Inl (KeyError idx)
     | Some node \<Rightarrow>
         (let vd = visit_next rows node (visit_children (children rows idx) (visited, dq))
          in bfs_component rows (snd vd) (fst vd) (insert idx comp_s)))"
  by pat_completeness auto
termination
proof (relation "measure (\<lambda>(rows, dq, visited, comp_s). 2 * unvisited rows visited + length dq)")
  show "wf (measure (\<lambda>(rows, dq, visited, comp_s). 2 * unvisited rows visited + length dq))"
    by simp
next
  fix rows :: "DlgRow list" and idx dq visited and comp_s :: "int set" and node vd
  assume "vd = visit_next rows node (visit_children (children rows idx) (visited, dq))"
  then have "2 * unvisited rows (fst vd) + length (snd vd)
      \<le> 2 * unvisited rows visited + length dq"
    using visit_next_measure[of rows node "visit_children (children rows idx) (visited, dq)"]
      visit_children_measure[OF children_subset, of rows idx visited dq]
    by simp
  then show "((rows, snd vd, fst vd, insert idx comp_s), rows, idx # dq, visited, comp_s)
       \<in> measure (\<lambda>(rows, dq, visited, comp_s). 2 * unvisited rows visited + length dq)"
    by simp
qed

text \<open>The \<^verbatim>\<open>for r in rows\<close> loop: every row not yet visited seeds a component.\<close>

fun build_loop ::
  "DlgRow list \<Rightarrow> DlgRow list \<Rightarrow> int set \<Rightarrow> int set list \<Rightarrow> error + int set list" where
  "build_loop rows [] visited components = Inr components"
| "build_loop rows (r # rs) visited components =
    (if index r \<in> visited then build_loop rows rs visited components
     else (case bfs_component rows [index r] (insert (index r) visited) {} of
             Inl e \<Rightarrow> Inl e
           | Inr (visited', comp_s) \<Rightarrow> build_loop rows rs visited' (components @ [comp_s])))"

text \<open>
  \<^verbatim>\<open>_build_components\<close>: the rows as \<^verbatim>\<open>_ensure_parents\<close> leaves them, and the components.
\<close>

definition build_components :: "DlgRow list \<Rightarrow> DlgRow list \<times> (error + int set list)" where
  "build_components rows =
    (let rows' = ensure_parents rows in (rows', build_loop rows' rows' {} []))"

text \<open>The rows of the concrete scenario, and three rows given in another order.\<close>

definition rows_scenario :: "DlgRow list" where
  "rows_scenario = [mk_row 1 None None, mk_row 2 (Some 1) None, mk_row 3 (Some 4) None,
     mk_row 4 None None]"

definition rows_split :: "DlgRow list" where
  "rows_split = [mk_row 3 None None, mk_row 1 None None, mk_row 2 (Some 3) None]"

text \<open>
  The edges the traversal follows from \<open>i\<close>: to every row that names \<open>i\<close> as its
  \<^verbatim>\<open>parent_npc\<close> (answer edge), and from a reply to the existing line its \<^verbatim>\<open>next\<close> names
  (leads-to edge).
\<close>

definition edge :: "DlgRow list \<Rightarrow> int \<Rightarrow> int \<Rightarrow> bool" where
  "edge rows i j =
    (j \<in> set (children rows i) \<or>
     (case nodes_map rows i of
        None \<Rightarrow> False
      | Some node \<Rightarrow> nxt node = Some j \<and> j \<in> set (map index rows)))"

definition succs :: "DlgRow list \<Rightarrow> int \<Rightarrow> int set" where
  "succs rows i = {j. edge rows i j}"

text \<open>
  What the component list satisfies while it is built: the sets are pairwise disjoint, every
  edge from a set ends in that set or an earlier one, and every set is reached from one
  of its members.
\<close>

definition comps_ok :: "DlgRow list \<Rightarrow> int set list \<Rightarrow> bool" where
  "comps_ok rows comps =
    ((\<forall>k<length comps. \<forall>m<k. comps ! k \<inter> comps ! m = {})
     \<and> (\<forall>k<length comps. \<forall>i\<in>comps ! k. succs rows i \<subseteq> \<Union>(set (take (Suc k) comps)))
     \<and> (\<forall>k<length comps. \<exists>s\<in>comps ! k. \<forall>i\<in>comps ! k. (edge rows)\<^sup>*\<^sup>* s i))"

text \<open>The index of the last NPC line among the given rows, if there is one.\<close>

definition last_npc :: "DlgRow list \<Rightarrow> int option" where
  "last_npc rows =
    (case find (\<lambda>r. \<not> is_pc_reply r) (rev rows) of None \<Rightarrow> None | Some r \<Rightarrow> Some (index r))"

section \<open>The layered layout (\<^verbatim>\<open>calculate_layout\<close>)\<close>

definition NODE_W_BASE :: int where "NODE_W_BASE = 300"
definition NODE_H_BASE :: int where "NODE_H_BASE = 90"
definition H_GAP_BASE :: int where "H_GAP_BASE = 60"
definition V_GAP_BASE :: int where "V_GAP_BASE = 110"
definition BARYCENTER_ITERATIONS :: nat where "BARYCENTER_ITERATIONS = 5"

text \<open>
  \<^verbatim>\<open>layers\<close> is a \<^verbatim>\<open>defaultdict(list)\<close> from level to the indices on it, \<^verbatim>\<open>node_to_layer\<close> a
  dict from index to level. Both are association lists in insertion order, which is the
  order Python iterates a dict in.
\<close>

type_synonym layer_table = "(int \<times> int list) list"

fun layers_append :: "layer_table \<Rightarrow> int \<Rightarrow> int \<Rightarrow> layer_table" where
  "layers_append [] level x = [(level, [x])]"
| "layers_append ((l, xs) # rest) level x =
    (if l = level then (l, xs @ [x]) # rest else (l, xs) # layers_append rest level x)"

fun layers_set :: "layer_table \<Rightarrow> int \<Rightarrow> int list \<Rightarrow> layer_table" where
  "layers_set [] level ys = [(level, ys)]"
| "layers_set ((l, xs) # rest) level ys =
    (if l = level then (l, ys) # rest else (l, xs) # layers_set rest level ys)"

definition layers_get :: "layer_table \<Rightarrow> int \<Rightarrow> int list" where
  "layers_get layers level = (case map_of layers level of Some xs \<Rightarrow> xs | None \<Rightarrow> [])"

subsection \<open>Layering\<close>

text \<open>The queue starts with every NPC line that has no \<^verbatim>\<open>parent_npc\<close>, at level 0.\<close>

definition root_queue :: "DlgRow list \<Rightarrow> (int \<times> int) list" where
  "root_queue rows =
    map (\<lambda>r. (index r, 0)) (filter (\<lambda>r. parent_npc r = None \<and> \<not> is_pc_reply r) rows)"

text \<open>
  What a node puts into the queue when it gets its layer. The test \<^verbatim>\<open>if node.next and ...\<close>
  is false for \<^verbatim>\<open>next = 0\<close> as well.
\<close>

definition expand :: "DlgRow list \<Rightarrow> DlgRow \<Rightarrow> int \<Rightarrow> int \<Rightarrow> (int \<times> int) list" where
  "expand rows node node_idx level =
    (if \<not> is_pc_reply node then map (\<lambda>child_idx. (child_idx, level + 1)) (children rows node_idx)
     else (case nxt node of
             None \<Rightarrow> []
           | Some n \<Rightarrow> if n \<noteq> 0 \<and> n \<in> dom (nodes_map rows) then [(n, level + 1)] else []))"

lemma length_expand:
  "nodes_map rows node_idx = Some node \<Longrightarrow> length (expand rows node node_idx' level) \<le> length rows"
proof -
  assume "nodes_map rows node_idx = Some node"
  then have "rows \<noteq> []"
    by (auto simp: nodes_map_def)
  then have "1 \<le> length rows"
    by (cases rows) auto
  then show ?thesis
    by (auto simp: expand_def children_def split: option.splits)
qed

lemma nodes_map_Some_index: "nodes_map rows i = Some node \<Longrightarrow> i \<in> set (map index rows)"
  by (auto simp: nodes_map_def dest!: map_of_SomeD)

text \<open>
  The \<^verbatim>\<open>while q\<close> loop. A node that has a layer is skipped, so each index is expanded at
  most once; the measure counts the indices without a layer, weighted by the most a
  single expansion can add to the queue.
\<close>

function layering ::
  "DlgRow list \<Rightarrow> (int \<times> int) list \<Rightarrow> (int \<times> int) list \<Rightarrow> layer_table
     \<Rightarrow> error + ((int \<times> int) list \<times> layer_table)" where
  "layering rows [] node_to_layer layers = Inr (node_to_layer, layers)"
| "layering rows ((node_idx, level) # q) node_to_layer layers =
    (if node_idx \<in> fst ` set node_to_layer then layering rows q node_to_layer layers
     else (case nodes_map rows node_idx of
             None \<Rightarrow> Inl (KeyError node_idx)
           | Some node \<Rightarrow>
               layering rows (q @ expand rows node node_idx level)
                 (node_to_layer @ [(node_idx, level)]) (layers_append layers level node_idx)))"
  by pat_completeness auto
termination
proof (relation "measure (\<lambda>(rows, q, node_to_layer, layers).
          (length rows + 1) * unvisited rows (fst ` set node_to_layer) + length q)", goal_cases)
  case 1
  show ?case by simp
next
  case (2 rows node_idx level q node_to_layer layers)
  then show ?case by simp
next
  case (3 rows node_idx level q node_to_layer layers node)
  have "unvisited rows (insert node_idx (fst ` set node_to_layer))
      < unvisited rows (fst ` set node_to_layer)"
    using 3 by (intro unvisited_insert nodes_map_Some_index)
  then have "unvisited rows (insert node_idx (fst ` set node_to_layer)) + 1
      \<le> unvisited rows (fst ` set node_to_layer)"
    by simp
  then have "(length rows + 1) * (unvisited rows (insert node_idx (fst ` set node_to_layer)) + 1)
      \<le> (length rows + 1) * unvisited rows (fst ` set node_to_layer)"
    by (rule mult_le_mono2)
  moreover have "length (expand rows node node_idx level) \<le> length rows"
    using 3 by (intro length_expand)
  ultimately show ?case
    by simp
qed

definition layer_assignment :: "DlgRow list \<Rightarrow> error + ((int \<times> int) list \<times> layer_table)" where
  "layer_assignment rows = layering rows (root_queue rows) [] []"

subsection \<open>Barycentric ordering\<close>

text \<open>
  \<^verbatim>\<open>prev.index(n)\<close> is the first position of \<open>n\<close>, asked only for members of \<open>prev\<close>. The
  barycenter is a float quotient of small integers and is modelled by the exact rational.
\<close>

definition list_index :: "int list \<Rightarrow> int \<Rightarrow> nat" where
  "list_index prev n = length (takeWhile (\<lambda>x. x \<noteq> n) prev)"

definition mean_pos :: "int list \<Rightarrow> int list \<Rightarrow> rat" where
  "mean_pos prev neighbors =
    (let pos = map (list_index prev) (filter (\<lambda>n. n \<in> set prev) neighbors)
     in if pos = [] then 0 else of_nat (sum_list pos) / of_nat (length pos))"

definition neighbors_layered :: "DlgRow list \<Rightarrow> DlgRow \<Rightarrow> int \<Rightarrow> int list" where
  "neighbors_layered rows node node_idx =
    (case parent_npc node of
       Some p \<Rightarrow> if is_pc_reply node then [p]
                 else map index (filter (\<lambda>r. nxt r = Some node_idx) rows)
     | None \<Rightarrow> map index (filter (\<lambda>r. nxt r = Some node_idx) rows))"

fun barycenters_layered ::
  "DlgRow list \<Rightarrow> int list \<Rightarrow> int list \<Rightarrow> error + (int \<times> rat) list" where
  "barycenters_layered rows prev [] = Inr []"
| "barycenters_layered rows prev (node_idx # rest) =
    (case nodes_map rows node_idx of
       None \<Rightarrow> Inl (KeyError node_idx)
     | Some node \<Rightarrow>
         (case barycenters_layered rows prev rest of
            Inl e \<Rightarrow> Inl e
          | Inr bs \<Rightarrow>
              (let neighbors = neighbors_layered rows node node_idx;
                   b = (if neighbors = [] then 0 else mean_pos prev neighbors)
               in Inr ((node_idx, b) # bs))))"

text \<open>\<^verbatim>\<open>list.sort(key=...)\<close> is stable, as \<open>sort_key\<close> is; the key is \<^verbatim>\<open>barycenters.get(i, 0)\<close>.\<close>

definition sort_by_barycenter :: "(int \<times> rat) list \<Rightarrow> int list \<Rightarrow> int list" where
  "sort_by_barycenter bs xs =
    sort_key (\<lambda>i. case map_of bs i of Some b \<Rightarrow> b | None \<Rightarrow> 0) xs"

fun order_levels_layered :: "DlgRow list \<Rightarrow> int list \<Rightarrow> layer_table \<Rightarrow> error + layer_table" where
  "order_levels_layered rows [] layers = Inr layers"
| "order_levels_layered rows (level # levels) layers =
    (case barycenters_layered rows (layers_get layers (level - 1)) (layers_get layers level) of
       Inl e \<Rightarrow> Inl e
     | Inr bs \<Rightarrow>
         order_levels_layered rows levels
           (layers_set layers level (sort_by_barycenter bs (layers_get layers level))))"

fun order_layered :: "nat \<Rightarrow> DlgRow list \<Rightarrow> layer_table \<Rightarrow> error + layer_table" where
  "order_layered 0 rows layers = Inr layers"
| "order_layered (Suc n) rows layers =
    (case order_levels_layered rows (sort (map fst layers)) layers of
       Inl e \<Rightarrow> Inl e
     | Inr layers' \<Rightarrow> order_layered n rows layers')"

subsection \<open>Coordinates\<close>

text \<open>
  Coordinates are floats computed from integers by sums, products and one halving; the
  model computes them exactly, as rationals.
\<close>

text \<open>The scan of \<^verbatim>\<open>node_to_layer.items()\<close> for one component.\<close>

definition comp_scan :: "(int \<times> int) list \<Rightarrow> int set \<Rightarrow> int \<times> layer_table" where
  "comp_scan node_to_layer comp_s =
    fold (\<lambda>(node_idx, lvl) (min_level, comp_layers).
            if node_idx \<in> comp_s then (min min_level lvl, layers_append comp_layers lvl node_idx)
            else (min_level, comp_layers))
      node_to_layer (10 ^ 9, [])"

text \<open>\<^verbatim>\<open>for i, idx in enumerate(ordered): positions[idx] = (start_x + i * step, y)\<close>.\<close>

fun place_ordered ::
  "rat \<Rightarrow> int \<Rightarrow> rat \<Rightarrow> nat \<Rightarrow> int list \<Rightarrow> (int \<rightharpoonup> pos) \<Rightarrow> (int \<rightharpoonup> pos)" where
  "place_ordered start_x step y i [] positions = positions"
| "place_ordered start_x step y i (idx # rest) positions =
    place_ordered start_x step y (Suc i) rest
      (positions(idx \<mapsto> (start_x + of_nat i * of_int step, y)))"

definition place_level ::
  "int \<Rightarrow> int \<Rightarrow> int \<Rightarrow> int \<Rightarrow> layer_table \<Rightarrow> layer_table \<Rightarrow> int \<Rightarrow> int \<Rightarrow> int
     \<Rightarrow> int \<times> (int \<rightharpoonup> pos) \<Rightarrow> int \<times> (int \<rightharpoonup> pos)" where
  "place_level node_w node_h h_gap v_gap layers comp_layers min_level component_offset_x level =
    (\<lambda>(max_width, positions).
       let ordered = filter (\<lambda>n. n \<in> set (layers_get comp_layers level)) (layers_get layers level);
           y = (level - min_level) * (node_h + v_gap);
           layer_width = int (length ordered) * (node_w + h_gap);
           start_x = of_int component_offset_x - of_int layer_width / 2
       in (max max_width layer_width,
           place_ordered start_x (node_w + h_gap) (of_int y) 0 ordered positions))"

definition place_component ::
  "int \<Rightarrow> int \<Rightarrow> int \<Rightarrow> int \<Rightarrow> (int \<times> int) list \<Rightarrow> layer_table \<Rightarrow> int set
     \<Rightarrow> int \<times> (int \<rightharpoonup> pos) \<Rightarrow> int \<times> (int \<rightharpoonup> pos)" where
  "place_component node_w node_h h_gap v_gap node_to_layer layers comp_s =
    (\<lambda>(component_offset_x, positions).
       if comp_s = {} then (component_offset_x, positions)
       else
         (let (min_level, comp_layers) = comp_scan node_to_layer comp_s;
              (max_width, positions') =
                 fold (place_level node_w node_h h_gap v_gap layers comp_layers min_level
                         component_offset_x)
                   (sort (map fst comp_layers)) (0, positions)
          in (component_offset_x + (max_width + h_gap * 4), positions')))"

text \<open>
  \<^verbatim>\<open>calculate_layout\<close>. The result is the rows as the call leaves them (it runs
  \<^verbatim>\<open>_ensure_parents\<close> itself and again inside \<^verbatim>\<open>_build_components\<close>; \<^verbatim>\<open>nodes_map\<close> holds
  the row objects, so it sees what these calls wrote) and the position map. The first
  part, up to the end of the layering loop, is \<open>layered_layers\<close>: it yields the components,
  \<^verbatim>\<open>node_to_layer\<close> and \<^verbatim>\<open>layers\<close>.
\<close>

definition layered_layers ::
  "DlgRow list \<Rightarrow> DlgRow list \<times> (error + (int set list \<times> (int \<times> int) list \<times> layer_table))" where
  "layered_layers rows =
    (let rows1 = ensure_parents rows;
         (rows2, built) = build_components rows1
     in (rows2,
         (case built of
            Inl e \<Rightarrow> Inl e
          | Inr components \<Rightarrow>
              (case layer_assignment rows2 of
                 Inl e \<Rightarrow> Inl e
               | Inr (node_to_layer, layers) \<Rightarrow> Inr (components, node_to_layer, layers)))))"

definition calculate_layout ::
  "DlgRow list \<Rightarrow> int \<Rightarrow> int \<Rightarrow> int \<Rightarrow> int \<Rightarrow> DlgRow list \<times> (error + (int \<rightharpoonup> pos))" where
  "calculate_layout rows node_w node_h h_gap v_gap =
    (if rows = [] then (rows, Inr Map.empty)
     else
       (let (rows2, stage1) = layered_layers rows
        in (rows2,
            (case stage1 of
               Inl e \<Rightarrow> Inl e
             | Inr (components, node_to_layer, layers) \<Rightarrow>
                 (case order_layered BARYCENTER_ITERATIONS rows2 layers of
                    Inl e \<Rightarrow> Inl e
                  | Inr layers' \<Rightarrow>
                      Inr (snd (fold (place_component node_w node_h h_gap v_gap
                                        node_to_layer layers')
                                  components (0, Map.empty))))))))"

text \<open>Rectangles of size \<open>w\<close> by \<open>h\<close> anchored at two positions overlap.\<close>

definition overlap :: "int \<Rightarrow> int \<Rightarrow> pos \<Rightarrow> pos \<Rightarrow> bool" where
  "overlap w h p1 p2 =
    (fst p1 < fst p2 + of_int w \<and> fst p2 < fst p1 + of_int w
     \<and> snd p1 < snd p2 + of_int h \<and> snd p2 < snd p1 + of_int h)"

text \<open>
  Concrete inputs: a reply that precedes every NPC line, and a component of two nodes
  followed by one with four replies on a layer.
\<close>

definition rows_orphan :: "DlgRow list" where
  "rows_orphan = [mk_row 1 (Some 2) None, mk_row 2 None None]"

definition rows_wide :: "DlgRow list" where
  "rows_wide = [mk_row 1 None None, mk_row 2 (Some 1) None, mk_row 3 None None,
     mk_row 4 (Some 3) None, mk_row 5 (Some 3) None, mk_row 6 (Some 3) None,
     mk_row 7 (Some 3) None]"

section \<open>The forest layout (\<^verbatim>\<open>calculate_tree_layout\<close>)\<close>

text \<open>
  The local \<^verbatim>\<open>_ensure_parents\<close> of this function looks at every reply without
  \<^verbatim>\<open>parent_npc\<close>, computes a candidate list and then does nothing (\<^verbatim>\<open>pass\<close>): it assigns
  to no row.
\<close>

definition tree_ensure_parents :: "DlgRow list \<Rightarrow> DlgRow list" where
  "tree_ensure_parents rows =
    fold (\<lambda>r rows'.
            if is_pc_reply r \<and> parent_npc r = None
            then (let candidates =
                        map index (filter (\<lambda>n. \<not> is_pc_reply n
                            \<and> list_ex (\<lambda>x. parent_npc x = Some (index n)) (filter is_pc_reply rows))
                          rows)
                  in rows')
            else rows')
      rows rows"

subsection \<open>Roots\<close>

text \<open>
  The keys of a dict built from a list, in the order of their first insertion.
  \<^verbatim>\<open>incoming_to_npc\<close> counts, for every NPC line, the replies whose \<^verbatim>\<open>next\<close> names it.
\<close>

definition dict_keys :: "'a list \<Rightarrow> 'a list" where
  "dict_keys xs = rev (remdups (rev xs))"

definition incoming_to_npc :: "DlgRow list \<Rightarrow> (int \<times> nat) list" where
  "incoming_to_npc rows =
    map (\<lambda>k. (k, length (filter (\<lambda>r. is_pc_reply r \<and> nxt r = Some k) rows)))
      (dict_keys (map index (filter (\<lambda>r. \<not> is_pc_reply r) rows)))"

definition tree_roots :: "DlgRow list \<Rightarrow> int list" where
  "tree_roots rows =
    (let roots = map fst (filter (\<lambda>(idx, cnt). cnt = 0) (incoming_to_npc rows))
     in if roots = []
        then (case find (\<lambda>r. \<not> is_pc_reply r) rows of
                None \<Rightarrow> roots
              | Some r \<Rightarrow> [index r])
        else roots)"

subsection \<open>Layering by breadth-first search from a root\<close>

fun visit_children_lvl ::
  "int \<Rightarrow> int list \<Rightarrow> int set \<times> (int \<times> int) list \<Rightarrow> int set \<times> (int \<times> int) list" where
  "visit_children_lvl lvl [] (visited, dq) = (visited, dq)"
| "visit_children_lvl lvl (ch # chs) (visited, dq) =
    (if ch \<notin> visited then visit_children_lvl lvl chs (insert ch visited, dq @ [(ch, lvl + 1)])
     else visit_children_lvl lvl chs (visited, dq))"

definition visit_node ::
  "DlgRow list \<Rightarrow> DlgRow \<Rightarrow> int \<Rightarrow> int \<Rightarrow> int set \<times> (int \<times> int) list
     \<Rightarrow> int set \<times> (int \<times> int) list" where
  "visit_node rows node idx lvl vd =
    (if \<not> is_pc_reply node then visit_children_lvl lvl (children rows idx) vd
     else (case nxt node of
             None \<Rightarrow> vd
           | Some n \<Rightarrow>
               if n \<in> dom (nodes_map rows) \<and> n \<notin> fst vd
               then (insert n (fst vd), snd vd @ [(n, lvl + 1)])
               else vd))"

lemma visit_children_lvl_measure:
  "set chs \<subseteq> set (map index rows) \<Longrightarrow>
   2 * unvisited rows (fst (visit_children_lvl lvl chs (visited, dq)))
     + length (snd (visit_children_lvl lvl chs (visited, dq)))
   \<le> 2 * unvisited rows visited + length dq"
proof (induction chs arbitrary: visited dq)
  case Nil
  then show ?case by simp
next
  case (Cons ch chs)
  show ?case
  proof (cases "ch \<in> visited")
    case True
    then show ?thesis using Cons.IH[of visited dq] Cons.prems by simp
  next
    case False
    have "unvisited rows (insert ch visited) < unvisited rows visited"
      using Cons.prems False by (intro unvisited_insert) auto
    then show ?thesis
      using Cons.IH[of "insert ch visited" "dq @ [(ch, lvl + 1)]"] Cons.prems False by simp
  qed
qed

lemma visit_node_measure:
  "2 * unvisited rows (fst (visit_node rows node idx lvl (visited, dq)))
     + length (snd (visit_node rows node idx lvl (visited, dq)))
   \<le> 2 * unvisited rows visited + length dq"
proof (cases "is_pc_reply node")
  case False
  then show ?thesis
    using visit_children_lvl_measure[OF children_subset, where lvl = lvl and visited = visited
        and dq = dq and rows = rows and idx1 = idx]
    by (simp add: visit_node_def)
next
  case True
  then obtain n where n: "nxt node = Some n"
    by (auto simp: is_pc_reply_def)
  show ?thesis
  proof (cases "n \<in> dom (nodes_map rows) \<and> n \<notin> visited")
    case True
    then have "unvisited rows (insert n visited) < unvisited rows visited"
      by (intro unvisited_insert) (simp_all add: dom_nodes_map)
    with True n \<open>is_pc_reply node\<close> show ?thesis by (simp add: visit_node_def)
  next
    case False
    with n \<open>is_pc_reply node\<close> show ?thesis by (auto simp: visit_node_def)
  qed
qed

text \<open>
  \<^verbatim>\<open>_bfs_layers\<close>, started with the root in the queue and in \<^verbatim>\<open>visited\<close>. It returns the
  shared \<^verbatim>\<open>visited\<close> set as it leaves it, the set of the component and its layers.
\<close>

function bfs_layers ::
  "DlgRow list \<Rightarrow> (int \<times> int) list \<Rightarrow> int set \<Rightarrow> int set \<Rightarrow> layer_table
     \<Rightarrow> error + (int set \<times> int set \<times> layer_table)" where
  "bfs_layers rows [] visited comp_nodes layers = Inr (visited, comp_nodes, layers)"
| "bfs_layers rows ((idx, lvl) # dq) visited comp_nodes layers =
    (case nodes_map rows idx of
       None \<Rightarrow> Inl (KeyError idx)
     | Some node \<Rightarrow>
         (let vd = visit_node rows node idx lvl (visited, dq)
          in bfs_layers rows (snd vd) (fst vd) (insert idx comp_nodes)
               (layers_append layers lvl idx)))"
  by pat_completeness auto
termination
proof (relation "measure (\<lambda>(rows, dq, visited, comp_nodes, layers).
          2 * unvisited rows visited + length dq)", goal_cases)
  case 1
  show ?case by simp
next
  case (2 rows idx lvl dq visited comp_nodes layers node vd)
  then show ?case
    using visit_node_measure[of rows node idx lvl visited dq] by simp
qed

text \<open>
  One turn of the two loops over seeds (first the roots, then every row): a seed that is
  not visited yet starts a search and adds a component with its layers.
\<close>

type_synonym tree_acc = "int set \<times> int set list \<times> layer_table list"

fun tree_seeds :: "DlgRow list \<Rightarrow> int list \<Rightarrow> tree_acc \<Rightarrow> error + tree_acc" where
  "tree_seeds rows [] acc = Inr acc"
| "tree_seeds rows (root_idx # roots) (visited, components, layers_by_comp) =
    (if root_idx \<in> visited then tree_seeds rows roots (visited, components, layers_by_comp)
     else (case bfs_layers rows [(root_idx, 0)] (insert root_idx visited) {} [] of
             Inl e \<Rightarrow> Inl e
           | Inr (visited', comp_nodes, layers) \<Rightarrow>
               tree_seeds rows roots
                 (visited', components @ [comp_nodes], layers_by_comp @ [layers])))"

definition tree_components :: "DlgRow list \<Rightarrow> error + tree_acc" where
  "tree_components rows =
    (case tree_seeds rows (tree_roots rows) ({}, [], []) of
       Inl e \<Rightarrow> Inl e
     | Inr acc \<Rightarrow> tree_seeds rows (map index rows) acc)"

subsection \<open>Ordering inside each component\<close>

definition neighbors_tree :: "DlgRow list \<Rightarrow> DlgRow \<Rightarrow> int \<Rightarrow> int list" where
  "neighbors_tree rows node idx =
    (if is_pc_reply node
     then (case parent_npc node of Some p \<Rightarrow> [p] | None \<Rightarrow> [])
     else map index (filter (\<lambda>x. is_pc_reply x \<and> nxt x = Some idx) rows))"

fun barycenters_tree ::
  "DlgRow list \<Rightarrow> int list \<Rightarrow> int list \<Rightarrow> error + (int \<times> rat) list" where
  "barycenters_tree rows prev [] = Inr []"
| "barycenters_tree rows prev (idx # rest) =
    (case nodes_map rows idx of
       None \<Rightarrow> Inl (KeyError idx)
     | Some node \<Rightarrow>
         (case barycenters_tree rows prev rest of
            Inl e \<Rightarrow> Inl e
          | Inr bs \<Rightarrow> Inr ((idx, mean_pos prev (neighbors_tree rows node idx)) # bs)))"

fun order_levels_tree :: "DlgRow list \<Rightarrow> int list \<Rightarrow> layer_table \<Rightarrow> error + layer_table" where
  "order_levels_tree rows [] layers = Inr layers"
| "order_levels_tree rows (lvl # lvls) layers =
    (case barycenters_tree rows (layers_get layers (lvl - 1)) (layers_get layers lvl) of
       Inl e \<Rightarrow> Inl e
     | Inr bs \<Rightarrow>
         order_levels_tree rows lvls
           (layers_set layers lvl (sort_by_barycenter bs (layers_get layers lvl))))"

fun order_tree :: "nat \<Rightarrow> DlgRow list \<Rightarrow> layer_table \<Rightarrow> error + layer_table" where
  "order_tree 0 rows layers = Inr layers"
| "order_tree (Suc n) rows layers =
    (case order_levels_tree rows (sort (map fst layers)) layers of
       Inl e \<Rightarrow> Inl e
     | Inr layers' \<Rightarrow> order_tree n rows layers')"

fun order_all :: "DlgRow list \<Rightarrow> layer_table list \<Rightarrow> error + layer_table list" where
  "order_all rows [] = Inr []"
| "order_all rows (layers # rest) =
    (case order_tree BARYCENTER_ITERATIONS rows layers of
       Inl e \<Rightarrow> Inl e
     | Inr layers' \<Rightarrow>
         (case order_all rows rest of Inl e \<Rightarrow> Inl e | Inr rest' \<Rightarrow> Inr (layers' # rest')))"

subsection \<open>Packing the components into a grid\<close>

text \<open>
  \<^verbatim>\<open>comp_infos\<close> holds, for each component, its number, its layers and the estimated width
  and height. The number of columns is \<^verbatim>\<open>max(1, int(round(ncomps ** 0.5)))\<close>; the nearest
  integer to the square root of \<open>n\<close> is the least \<open>k\<close> with \<open>n \<le> k * k + k\<close>.
\<close>

type_synonym comp_info = "nat \<times> layer_table \<times> int \<times> int"

definition comp_info_of :: "int \<Rightarrow> int \<Rightarrow> int \<Rightarrow> int \<Rightarrow> nat \<Rightarrow> layer_table \<Rightarrow> comp_info" where
  "comp_info_of node_w node_h h_gap v_gap comp_idx layers =
    (if layers = [] then (comp_idx, layers, node_w + h_gap, node_h + v_gap)
     else
       (let max_nodes_per_layer = Max (set (map (\<lambda>l. int (length (layers_get layers l))) (map fst layers)));
            num_layers = Max (set (map fst layers)) - Min (set (map fst layers)) + 1;
            comp_w = max_nodes_per_layer * (node_w + h_gap);
            comp_h = num_layers * (node_h + v_gap)
        in (comp_idx, layers, comp_w, comp_h)))"

definition round_sqrt :: "nat \<Rightarrow> nat" where
  "round_sqrt n = length (takeWhile (\<lambda>k. k * k + k < n) [0..<n])"

fun place_indices ::
  "string \<Rightarrow> rat \<Rightarrow> int \<Rightarrow> rat \<Rightarrow> nat \<Rightarrow> int list \<Rightarrow> (int \<rightharpoonup> pos) \<Rightarrow> (int \<rightharpoonup> pos)" where
  "place_indices orientation start_secondary step primary j [] positions = positions"
| "place_indices orientation start_secondary step primary j (idx # rest) positions =
    (let secondary = start_secondary + of_nat j * of_int step
     in place_indices orientation start_secondary step primary (Suc j) rest
          (positions(idx \<mapsto> (if orientation = ''vertical'' then (secondary, primary)
                              else (primary, secondary)))))"

definition place_tree_level ::
  "string \<Rightarrow> int \<Rightarrow> int \<Rightarrow> int \<Rightarrow> int \<Rightarrow> layer_table \<Rightarrow> int \<Rightarrow> int \<Rightarrow> rat \<Rightarrow> rat \<Rightarrow> int
     \<Rightarrow> (int \<rightharpoonup> pos) \<Rightarrow> (int \<rightharpoonup> pos)" where
  "place_tree_level orientation node_w node_h h_gap v_gap layers comp_w min_lvl
       row_primary_offset cur_secondary lvl positions =
    (let indices = layers_get layers lvl;
         secondary_span = int (length indices) * (node_w + h_gap);
         start_secondary = cur_secondary + of_int (comp_w - secondary_span) / 2;
         primary = row_primary_offset + of_int ((lvl - min_lvl) * (node_h + v_gap))
     in place_indices orientation start_secondary (node_w + h_gap) primary 0 indices positions)"

definition place_tree_comp ::
  "string \<Rightarrow> int \<Rightarrow> int \<Rightarrow> int \<Rightarrow> int \<Rightarrow> rat \<Rightarrow> comp_info
     \<Rightarrow> rat \<times> (int \<rightharpoonup> pos) \<Rightarrow> rat \<times> (int \<rightharpoonup> pos)" where
  "place_tree_comp orientation node_w node_h h_gap v_gap row_primary_offset info =
    (\<lambda>(cur_secondary, positions).
       case info of (comp_idx, layers, comp_w, comp_h) \<Rightarrow>
         (let min_lvl = (if layers = [] then 0 else Min (set (map fst layers)));
              positions' =
                fold (place_tree_level orientation node_w node_h h_gap v_gap layers comp_w
                        min_lvl row_primary_offset cur_secondary)
                  (sort (map fst layers)) positions
          in (cur_secondary + of_int (comp_w + h_gap * 4), positions')))"

text \<open>
  The \<^verbatim>\<open>while i < ncomps\<close> loop takes \<^verbatim>\<open>cols\<close> components per turn and advances \<open>i\<close> by
  \<^verbatim>\<open>cols\<close>; with \<^verbatim>\<open>cols = 0\<close> it would not end, so it is a partial function where not
  returning is \<open>None\<close>.
\<close>

partial_function (option) grid_loop ::
  "string \<times> int \<times> int \<times> int \<times> int \<Rightarrow> comp_info list \<Rightarrow> nat \<Rightarrow> nat \<Rightarrow> rat
     \<Rightarrow> (int \<rightharpoonup> pos) \<Rightarrow> (int \<rightharpoonup> pos) option" where
  "grid_loop params comp_infos cols i row_primary_offset positions =
    (case params of (orientation, node_w, node_h, h_gap, v_gap) \<Rightarrow>
      if i < length comp_infos
      then
        (let row = take cols (drop i comp_infos);
             row_height = (if row = [] then node_h + v_gap
                           else Max (set (map (\<lambda>(comp_idx, layers, comp_w, comp_h). comp_h) row)));
             positions' = snd (fold (place_tree_comp orientation node_w node_h h_gap v_gap
                                       row_primary_offset) row (0, positions))
         in grid_loop params comp_infos cols (i + cols)
              (row_primary_offset + of_int (row_height + v_gap * 3)) positions')
      else Some positions)"

declare grid_loop.simps [code]

text \<open>
  \<^verbatim>\<open>calculate_tree_layout\<close>: the rows as the call leaves them, and the position map;
  \<open>None\<close> stands for a call that does not return.
\<close>

definition calculate_tree_layout ::
  "DlgRow list \<Rightarrow> string \<Rightarrow> int \<Rightarrow> int \<Rightarrow> int \<Rightarrow> int
     \<Rightarrow> DlgRow list \<times> (error + (int \<rightharpoonup> pos)) option" where
  "calculate_tree_layout rows orientation node_w node_h h_gap v_gap =
    (if rows = [] then (rows, Some (Inr Map.empty))
     else
       (let rows' = tree_ensure_parents rows
        in (rows',
            (case tree_components rows' of
               Inl e \<Rightarrow> Some (Inl e)
             | Inr (visited, components, layers_by_comp) \<Rightarrow>
                 (case order_all rows' layers_by_comp of
                    Inl e \<Rightarrow> Some (Inl e)
                  | Inr ordered \<Rightarrow>
                      (let comp_infos =
                             map (\<lambda>comp_idx. comp_info_of node_w node_h h_gap v_gap comp_idx
                                                (ordered ! comp_idx))
                               [0..<length components];
                           ncomps = length comp_infos;
                           cols = max 1 (round_sqrt ncomps)
                       in map_option Inr
                            (grid_loop (orientation, node_w, node_h, h_gap, v_gap) comp_infos
                               cols 0 0 Map.empty)))))))"

text \<open>A chain of three nodes, for the horizontal orientation.\<close>

definition rows_chain :: "DlgRow list" where
  "rows_chain = [mk_row 1 None None, mk_row 2 (Some 3) (Some 1), mk_row 3 None None]"

section \<open>The two layering loops with a bound on their turns\<close>

text \<open>
  The same loops with a counter of the turns they may still take: \<open>None\<close> when the counter
  runs out before the queue is empty. They serve to state that the loops end within a
  bound, and with the result of \<open>layering\<close> and \<open>bfs_layers\<close>.
\<close>

fun layering_fuel ::
  "nat \<Rightarrow> DlgRow list \<Rightarrow> (int \<times> int) list \<Rightarrow> (int \<times> int) list \<Rightarrow> layer_table
     \<Rightarrow> (error + ((int \<times> int) list \<times> layer_table)) option" where
  "layering_fuel fuel rows [] node_to_layer layers = Some (Inr (node_to_layer, layers))"
| "layering_fuel 0 rows (x # q) node_to_layer layers = None"
| "layering_fuel (Suc fuel) rows ((node_idx, level) # q) node_to_layer layers =
    (if node_idx \<in> fst ` set node_to_layer then layering_fuel fuel rows q node_to_layer layers
     else (case nodes_map rows node_idx of
             None \<Rightarrow> Some (Inl (KeyError node_idx))
           | Some node \<Rightarrow>
               layering_fuel fuel rows (q @ expand rows node node_idx level)
                 (node_to_layer @ [(node_idx, level)]) (layers_append layers level node_idx)))"

fun bfs_layers_fuel ::
  "nat \<Rightarrow> DlgRow list \<Rightarrow> (int \<times> int) list \<Rightarrow> int set \<Rightarrow> int set \<Rightarrow> layer_table
     \<Rightarrow> (error + (int set \<times> int set \<times> layer_table)) option" where
  "bfs_layers_fuel fuel rows [] visited comp_nodes layers = Some (Inr (visited, comp_nodes, layers))"
| "bfs_layers_fuel 0 rows (x # dq) visited comp_nodes layers = None"
| "bfs_layers_fuel (Suc fuel) rows ((idx, lvl) # dq) visited comp_nodes layers =
    (case nodes_map rows idx of
       None \<Rightarrow> Some (Inl (KeyError idx))
     | Some node \<Rightarrow>
         (let vd = visit_node rows node idx lvl (visited, dq)
          in bfs_layers_fuel fuel rows (snd vd) (fst vd) (insert idx comp_nodes)
               (layers_append layers lvl idx)))"

text \<open>The indices that a layer table lists, level by level.\<close>

definition layer_nodes :: "layer_table \<Rightarrow> int list" where
  "layer_nodes layers = concat (map snd layers)"

text \<open>
  \<^verbatim>\<open>node_to_layer\<close> and \<^verbatim>\<open>layers\<close> agree: no index has two entries, no level two lists,
  no index is listed twice in the lists, the lists hold exactly the indices that have a
  level, each on the list of its level.
\<close>

definition layers_agree :: "(int \<times> int) list \<Rightarrow> layer_table \<Rightarrow> bool" where
  "layers_agree ntl layers =
    (distinct (map fst ntl) \<and> distinct (map fst layers) \<and> distinct (layer_nodes layers)
     \<and> set (layer_nodes layers) = fst ` set ntl
     \<and> (\<forall>(i, l)\<in>set ntl. i \<in> set (layers_get layers l)))"

text \<open>
  What the loops over the seeds of the forest layout keep: the layers of the components
  list every visited index once, and each component is the set of its layers.
\<close>

definition tree_inv :: "DlgRow list \<Rightarrow> tree_acc \<Rightarrow> bool" where
  "tree_inv rows acc =
    (case acc of (visited, components, layers_by_comp) \<Rightarrow>
       visited = set (concat (map layer_nodes layers_by_comp))
       \<and> distinct (concat (map layer_nodes layers_by_comp))
       \<and> components = map (\<lambda>L. set (layer_nodes L)) layers_by_comp
       \<and> visited \<subseteq> set (map index rows))"

text \<open>A reply, a line, a reply and a line that lead around in a cycle.\<close>

definition rows_cycle :: "DlgRow list" where
  "rows_cycle = [mk_row 1 None None, mk_row 2 (Some 3) (Some 1), mk_row 3 None None,
     mk_row 4 (Some 1) (Some 3)]"

section \<open>The mutation engine (mainwindow.py)\<close>

text \<open>
  The part of \<^verbatim>\<open>MainWindow\<close> that the commands change: the row list \<^verbatim>\<open>dlg_data\<close>, the
  table \<^verbatim>\<open>nodes\<close> of scene items keyed by index, of which the model keeps the position,
  the order in which the items now in the scene were added to it (\<open>z_order\<close>, the last
  one on top), the flag \<^verbatim>\<open>show_empty_nodes\<close> and the flag \<^verbatim>\<open>modified\<close>. Edge items are
  rebuilt from the rows and carry no state of their own. A position is a pair of floats,
  modelled by rationals.
\<close>

record mw_state =
  dlg_data :: "DlgRow list"
  nodes :: "int \<rightharpoonup> pos"
  z_order :: "int list"
  show_empty_nodes :: bool
  modified :: bool

definition visible_rows :: "mw_state \<Rightarrow> DlgRow list" where
  "visible_rows s =
    (if show_empty_nodes s then dlg_data s
     else filter (\<lambda>r. \<not> is_empty_separator r) (dlg_data s))"

definition mark_modified :: "mw_state \<Rightarrow> mw_state" where
  "mark_modified s = s\<lparr>modified := True\<rparr>"

definition remove_items_only :: "int \<Rightarrow> mw_state \<Rightarrow> mw_state" where
  "remove_items_only idx s =
    (if idx \<in> dom (nodes s)
     then s\<lparr>nodes := (nodes s)(idx := None), z_order := removeAll idx (z_order s)\<rparr>
     else s)"

subsection \<open>Moving an item: the collision nudge (graphview.py)\<close>

text \<open>
  Every node item is a rectangle of \<open>NODE_WIDTH\<close> by \<open>NODE_HEIGHT\<close> at its position.
  \<^verbatim>\<open>QRectF.intersects\<close> holds when two rectangles share area, which is \<open>overlap\<close>.
\<close>

definition NODE_WIDTH :: int where "NODE_WIDTH = 300"
definition NODE_HEIGHT :: int where "NODE_HEIGHT = 90"

text \<open>
  \<^verbatim>\<open>nudge_away\<close> looks through the node items of the scene from the top one down, the
  moved one left out, for the first whose rectangle intersects that of the moved item.
\<close>

definition find_hit :: "mw_state \<Rightarrow> int \<Rightarrow> pos \<Rightarrow> pos option" where
  "find_hit s moved p =
    (case find (\<lambda>other. other \<noteq> moved \<and>
                  (case nodes s other of None \<Rightarrow> False
                   | Some q \<Rightarrow> overlap NODE_WIDTH NODE_HEIGHT p q))
            (rev (z_order s)) of
       None \<Rightarrow> None
     | Some other \<Rightarrow> nodes s other)"

text \<open>The shift that takes the moved rectangle \<open>r1\<close> at \<open>p\<close> off the hit one \<open>r2\<close> at \<open>q\<close>.\<close>

definition nudge_shift :: "pos \<Rightarrow> pos \<Rightarrow> pos" where
  "nudge_shift p q =
    (let dx1 = (fst p + of_int NODE_WIDTH) - fst q;
         dx2 = (fst q + of_int NODE_WIDTH) - fst p;
         dy1 = (snd p + of_int NODE_HEIGHT) - snd q;
         dy2 = (snd q + of_int NODE_HEIGHT) - snd p
     in if min \<bar>dx1\<bar> \<bar>dx2\<bar> < min \<bar>dy1\<bar> \<bar>dy2\<bar>
        then (if \<bar>dx1\<bar> < \<bar>dx2\<bar> then - (dx1 + 2) else dx2 + 2, 0)
        else (0, if \<bar>dy1\<bar> < \<bar>dy2\<bar> then - (dy1 + 2) else dy2 + 2))"

text \<open>
  The loop of \<^verbatim>\<open>nudge_away\<close>, at most \<^verbatim>\<open>max_iter\<close> turns. The \<^verbatim>\<open>setPos\<close> inside it comes
  back to \<^verbatim>\<open>nudge_away\<close>, which returns at once while \<^verbatim>\<open>_resolving_collision\<close> is set.
\<close>

fun nudge_loop :: "nat \<Rightarrow> int \<Rightarrow> mw_state \<Rightarrow> mw_state" where
  "nudge_loop 0 moved s = s"
| "nudge_loop (Suc n) moved s =
    (case nodes s moved of
       None \<Rightarrow> s
     | Some p \<Rightarrow>
         (case find_hit s moved p of
            None \<Rightarrow> s
          | Some q \<Rightarrow>
              nudge_loop n moved
                (s\<lparr>nodes := (nodes s)(moved \<mapsto>
                     (fst p + fst (nudge_shift p q), snd p + snd (nudge_shift p q)))\<rparr>)))"

definition nudge_away :: "int \<Rightarrow> mw_state \<Rightarrow> mw_state" where
  "nudge_away moved s = nudge_loop 10 moved s"

text \<open>
  \<^verbatim>\<open>setPos\<close> on an item of the scene: nothing happens when the position is the one the
  item has; otherwise the item moves and \<^verbatim>\<open>itemChange\<close> calls \<^verbatim>\<open>nudge_away\<close> for it.
\<close>

definition set_pos :: "int \<Rightarrow> pos \<Rightarrow> mw_state \<Rightarrow> mw_state" where
  "set_pos idx p s =
    (if nodes s idx = Some p then s
     else nudge_away idx (s\<lparr>nodes := (nodes s)(idx \<mapsto> p)\<rparr>))"

text \<open>
  \<^verbatim>\<open>_add_one_node_item\<close>: a new item starts at the origin, is added to the scene on top
  and then moved to its position.
\<close>

definition add_one_node_item :: "DlgRow \<Rightarrow> pos \<Rightarrow> mw_state \<Rightarrow> mw_state" where
  "add_one_node_item row p s =
    (if index row \<in> dom (nodes s) then s
     else set_pos (index row) p
            (s\<lparr>nodes := (nodes s)(index row \<mapsto> (0, 0)),
               z_order := z_order s @ [index row]\<rparr>))"

text \<open>
  The first loop of \<^verbatim>\<open>_add_rows_and_items\<close>: each row is checked against the list as it
  is at that moment and appended at once. \<^verbatim>\<open>raise ValueError\<close> leaves the loop with the
  rows appended so far still in the list, so the error carries the state it leaves.
\<close>

fun append_rows :: "DlgRow list \<Rightarrow> DlgRow list \<Rightarrow> (error \<times> DlgRow list) + DlgRow list" where
  "append_rows data [] = Inr data"
| "append_rows data (r # rs) =
    (if list_ex (\<lambda>x. index x = index r) data then Inl (ValueError (index r), data)
     else append_rows (data @ [r]) rs)"

definition dict_get :: "('k \<rightharpoonup> 'v) \<Rightarrow> 'k \<Rightarrow> 'v \<Rightarrow> 'v" where
  "dict_get d k dflt = (case d k of Some v \<Rightarrow> v | None \<Rightarrow> dflt)"

text \<open>The body of the second loop: only rows that are visible get a scene item.\<close>

definition add_visible :: "int set \<Rightarrow> (int \<rightharpoonup> pos) \<Rightarrow> DlgRow \<Rightarrow> mw_state \<Rightarrow> mw_state" where
  "add_visible visible_ids positions r st =
    (if index r \<notin> visible_ids then st
     else add_one_node_item r (dict_get positions (index r) (0, 0)) st)"

definition add_rows_and_items ::
  "DlgRow list \<Rightarrow> (int \<rightharpoonup> pos) \<Rightarrow> mw_state \<Rightarrow> (error \<times> mw_state) + mw_state" where
  "add_rows_and_items rows positions s =
    (case append_rows (dlg_data s) rows of
       Inl (e, data) \<Rightarrow> Inl (e, s\<lparr>dlg_data := data\<rparr>)
     | Inr data \<Rightarrow>
         (let s1 = mark_modified (s\<lparr>dlg_data := data\<rparr>);
              visible_ids = set (map index (visible_rows s1))
          in Inr (fold (add_visible visible_ids positions) rows s1)))"

definition remove_rows_and_items :: "int list \<Rightarrow> mw_state \<Rightarrow> mw_state" where
  "remove_rows_and_items indices s =
    (let s1 = fold remove_items_only indices s;
         s2 = s1\<lparr>dlg_data := filter (\<lambda>r. index r \<notin> set indices) (dlg_data s1)\<rparr>
     in mark_modified s2)"

text \<open>
  The two undo commands. Each keeps copies of its rows and of the position table it was
  built with; \<^verbatim>\<open>QUndoStack.push\<close> runs \<^verbatim>\<open>redo\<close> once, \<^verbatim>\<open>undo()\<close> runs \<^verbatim>\<open>undo\<close>.
\<close>

datatype command =
    AddNodesCommand "DlgRow list" "int \<rightharpoonup> pos"
  | DeleteNodesCommand "DlgRow list" "int \<rightharpoonup> pos"

fun redo :: "command \<Rightarrow> mw_state \<Rightarrow> (error \<times> mw_state) + mw_state" where
  "redo (AddNodesCommand rows positions) s = add_rows_and_items rows positions s"
| "redo (DeleteNodesCommand rows positions) s = Inr (remove_rows_and_items (map index rows) s)"

fun undo :: "command \<Rightarrow> mw_state \<Rightarrow> (error \<times> mw_state) + mw_state" where
  "undo (AddNodesCommand rows positions) s = Inr (remove_rows_and_items (map index rows) s)"
| "undo (DeleteNodesCommand rows positions) s = add_rows_and_items rows positions s"

text \<open>
  \<^verbatim>\<open>delete_selection\<close> builds the delete command from the indices of the selected scene
  items: for each the first row carrying it (\<^verbatim>\<open>next(...)\<close> raises \<^verbatim>\<open>StopIteration\<close> when
  there is none) and the position of its item.
\<close>

fun first_rows :: "DlgRow list \<Rightarrow> int list \<Rightarrow> error + DlgRow list" where
  "first_rows data [] = Inr []"
| "first_rows data (idx # ids) =
    (case find (\<lambda>r. index r = idx) data of
       None \<Rightarrow> Inl StopIteration
     | Some r \<Rightarrow> (case first_rows data ids of Inl e \<Rightarrow> Inl e | Inr rs \<Rightarrow> Inr (r # rs)))"

definition delete_command :: "mw_state \<Rightarrow> int list \<Rightarrow> error + command" where
  "delete_command s ids =
    (case first_rows (dlg_data s) ids of
       Inl e \<Rightarrow> Inl e
     | Inr rows \<Rightarrow> Inr (DeleteNodesCommand rows (nodes s |` set ids)))"

text \<open>
  States for concrete inputs: one visible NPC line; one blank NPC line that has a scene
  item although empty separators are hidden (an edit that blanks the text of a line
  leaves its item in the scene); two lines whose items lie apart; and a line \<open>1\<close> whose
  item overlaps that of a reply \<open>3\<close> left at the origin (what the layered layout gives
  when the owner \<open>2\<close> of the reply is a hidden separator).
\<close>

definition st_one :: mw_state where
  "st_one = \<lparr> dlg_data = [mk_row 1 None None], nodes = [1 \<mapsto> (5, 5)], z_order = [1],
     show_empty_nodes = False, modified = False \<rparr>"

definition st_hidden :: mw_state where
  "st_hidden = \<lparr> dlg_data = [mk_blank 1], nodes = [1 \<mapsto> (5, 5)], z_order = [1],
     show_empty_nodes = False, modified = False \<rparr>"



definition ex_shift :: "DlgRow list" where
  "ex_shift = [mk_row 9 None None, mk_row 10 (Some 11) (Some 9), mk_row 11 None None]"


section \<open>The .dlg text format (io\_dlg.py)\<close>

text \<open>
  The model starts from the decoded text of the file: a string, lines ended by a line
  feed. Opening the file and the choice of the encoding are outside it.
\<close>

subsection \<open>Integers as text\<close>











subsection \<open>Writing\<close>

text \<open>\<^verbatim>\<open>str(v).replace('}', ']')\<close>, and the inverse replacement that the reader applies.\<close>

definition sanitize :: "string \<Rightarrow> string" where
  "sanitize v = map (\<lambda>c. if c = CHR ''}'' then CHR '']'' else c) v"






subsection \<open>Reading\<close>










section \<open>The JSON form (json\_conv.py)\<close>



















section \<open>Parent links after loading (mainwindow.py)\<close>



section \<open>The components are a partition\<close>

lemma visit_children_spec:
  "\<exists>xs. visit_children chs (visited, dq) = (visited \<union> set chs, dq @ xs)
     \<and> set xs = set chs - visited"
proof (induction chs arbitrary: visited dq)
  case Nil
  then show ?case by simp
next
  case (Cons ch chs)
  show ?case
  proof (cases "ch \<in> visited")
    case True
    from Cons.IH[of visited dq] obtain xs where
      "visit_children chs (visited, dq) = (visited \<union> set chs, dq @ xs)" "set xs = set chs - visited"
      by blast
    with True show ?thesis
      by (intro exI[of _ xs]) (auto simp: insert_absorb)
  next
    case False
    from Cons.IH[of "insert ch visited" "dq @ [ch]"] obtain xs where
      "visit_children chs (insert ch visited, dq @ [ch]) = (insert ch visited \<union> set chs, (dq @ [ch]) @ xs)"
      "set xs = set chs - insert ch visited"
      by blast
    with False show ?thesis
      by (intro exI[of _ "ch # xs"]) auto
  qed
qed

lemma visit_next_spec:
  "\<exists>xs. visit_next rows node (visited, dq) =
      (visited \<union> {j. is_pc_reply node \<and> nxt node = Some j \<and> j \<in> set (map index rows)}, dq @ xs)
     \<and> set xs = {j. is_pc_reply node \<and> nxt node = Some j \<and> j \<in> set (map index rows)} - visited"
proof (cases "nxt node")
  case None
  then show ?thesis by (simp add: visit_next_def)
next
  case (Some n)
  show ?thesis
  proof (cases "is_pc_reply node \<and> n \<in> set (map index rows)")
    case True
    then have eq: "{j. is_pc_reply node \<and> nxt node = Some j \<and> j \<in> set (map index rows)} = {n}"
      using Some by auto
    show ?thesis
    proof (cases "n \<in> visited")
      case True
      then show ?thesis
        unfolding eq using Some by (intro exI[of _ "[]"]) (auto simp: visit_next_def)
    next
      case False
      then show ?thesis
        unfolding eq using Some True
        by (intro exI[of _ "[n]"]) (auto simp: visit_next_def dom_nodes_map)
    qed
  next
    case False
    then have eq: "{j. is_pc_reply node \<and> nxt node = Some j \<and> j \<in> set (map index rows)} = {}"
      using Some by auto
    show ?thesis
      unfolding eq using Some False
      by (intro exI[of _ "[]"]) (auto simp: visit_next_def dom_nodes_map)
  qed
qed

lemma succs_subset: "succs rows i \<subseteq> set (map index rows)"
  using children_subset[of rows i]
  by (auto simp: succs_def edge_def split: option.splits)

lemma is_pc_reply_nxt: "nxt node = Some j \<Longrightarrow> is_pc_reply node"
  by (simp add: is_pc_reply_def)

lemma visit_step_spec:
  assumes "nodes_map rows idx = Some node"
  shows "\<exists>xs. visit_next rows node (visit_children (children rows idx) (visited, dq))
            = (visited \<union> succs rows idx, dq @ xs)
          \<and> set xs = succs rows idx - visited"
proof -
  define N where "N = {j. is_pc_reply node \<and> nxt node = Some j \<and> j \<in> set (map index rows)}"
  have s: "succs rows idx = set (children rows idx) \<union> N"
    using assms by (auto simp: succs_def edge_def N_def is_pc_reply_nxt)
  from visit_children_spec[of "children rows idx" visited dq] obtain xs where
    xs: "visit_children (children rows idx) (visited, dq) = (visited \<union> set (children rows idx), dq @ xs)"
      "set xs = set (children rows idx) - visited"
    by blast
  from visit_next_spec[of rows node "visited \<union> set (children rows idx)" "dq @ xs"] obtain ys where
    ys: "visit_next rows node (visited \<union> set (children rows idx), dq @ xs)
       = (visited \<union> set (children rows idx) \<union> N, (dq @ xs) @ ys)"
      "set ys = N - (visited \<union> set (children rows idx))"
    unfolding N_def by blast
  show ?thesis
    using xs ys by (intro exI[of _ "xs @ ys"]) (auto simp: s)
qed

lemma bfs_component_spec:
  assumes "set dq \<subseteq> set (map index rows)"
    and "\<forall>i\<in>set dq \<union> comp_s. (edge rows)\<^sup>*\<^sup>* seed i"
  shows "\<exists>v' c'. bfs_component rows dq visited comp_s = Inr (v', c')
      \<and> visited \<subseteq> v' \<and> v' \<subseteq> visited \<union> set (map index rows)
      \<and> c' = comp_s \<union> set dq \<union> (v' - visited)
      \<and> (\<forall>i\<in>set dq \<union> (v' - visited). succs rows i \<subseteq> v')
      \<and> (\<forall>i\<in>c'. (edge rows)\<^sup>*\<^sup>* seed i)"
  using assms
proof (induction rows dq visited comp_s rule: bfs_component.induct)
  case (1 rows visited comp_s)
  then show ?case by simp
next
  case (2 rows idx dq visited comp_s)
  from "2.prems"(1) obtain node where node: "nodes_map rows idx = Some node"
    using dom_nodes_map[of rows] by (cases "nodes_map rows idx") auto
  from visit_step_spec[OF node, of visited dq] obtain xs where
    vd: "visit_next rows node (visit_children (children rows idx) (visited, dq))
            = (visited \<union> succs rows idx, dq @ xs)"
    and xs: "set xs = succs rows idx - visited"
    by blast
  define v1 where "v1 = visited \<union> succs rows idx"
  have p1: "set (dq @ xs) \<subseteq> set (map index rows)"
    using "2.prems"(1) xs succs_subset[of rows idx] by auto
  have reach_idx: "(edge rows)\<^sup>*\<^sup>* seed idx"
    using "2.prems"(2) by simp
  have p2: "\<forall>i\<in>set (dq @ xs) \<union> insert idx comp_s. (edge rows)\<^sup>*\<^sup>* seed i"
  proof
    fix i assume "i \<in> set (dq @ xs) \<union> insert idx comp_s"
    then consider "i \<in> set xs" | "i \<in> set (idx # dq) \<union> comp_s" by auto
    then show "(edge rows)\<^sup>*\<^sup>* seed i"
    proof cases
      case 1
      then have "edge rows idx i" using xs by (simp add: succs_def)
      with reach_idx show ?thesis by (rule rtranclp.rtrancl_into_rtrancl)
    next
      case 2
      then show ?thesis using "2.prems"(2) by blast
    qed
  qed
  from "2.IH"[OF node refl, unfolded vd fst_conv snd_conv, OF p1 p2]
  obtain v' c' where r: "bfs_component rows (dq @ xs) v1 (insert idx comp_s) = Inr (v', c')"
    "v1 \<subseteq> v'" "v' \<subseteq> v1 \<union> set (map index rows)"
    "c' = insert idx comp_s \<union> set (dq @ xs) \<union> (v' - v1)"
    "\<forall>i\<in>set (dq @ xs) \<union> (v' - v1). succs rows i \<subseteq> v'"
    "\<forall>i\<in>c'. (edge rows)\<^sup>*\<^sup>* seed i"
    unfolding v1_def by blast
  have e: "bfs_component rows (idx # dq) visited comp_s = Inr (v', c')"
    using r(1) by (simp add: node vd Let_def v1_def)
  have a: "visited \<subseteq> v'" using r(2) by (auto simp: v1_def)
  have b: "v' \<subseteq> visited \<union> set (map index rows)"
    using r(3) succs_subset[of rows idx] by (auto simp: v1_def)
  have c: "c' = comp_s \<union> set (idx # dq) \<union> (v' - visited)"
    using r(2,4) xs by (auto simp: v1_def)
  have d: "\<forall>i\<in>set (idx # dq) \<union> (v' - visited). succs rows i \<subseteq> v'"
  proof
    fix i assume i: "i \<in> set (idx # dq) \<union> (v' - visited)"
    show "succs rows i \<subseteq> v'"
    proof (cases "i = idx")
      case True
      then show ?thesis using r(2) by (auto simp: v1_def)
    next
      case False
      then have "i \<in> set (dq @ xs) \<union> (v' - v1)"
        using i xs by (auto simp: v1_def)
      then show ?thesis using r(5) by blast
    qed
  qed
  show ?case
    using e a b c d r(6) by blast
qed

lemma comps_ok_snoc:
  assumes ok: "comps_ok rows comps"
    and disj: "C \<inter> \<Union>(set comps) = {}"
    and clos: "\<forall>i\<in>C. succs rows i \<subseteq> \<Union>(set comps) \<union> C"
    and seed: "\<exists>s\<in>C. \<forall>i\<in>C. (edge rows)\<^sup>*\<^sup>* s i"
  shows "comps_ok rows (comps @ [C])"
  unfolding comps_ok_def
proof (intro conjI allI impI)
  fix k m assume k: "k < length (comps @ [C])" and m: "m < k"
  show "(comps @ [C]) ! k \<inter> (comps @ [C]) ! m = {}"
  proof (cases "k < length comps")
    case True
    then show ?thesis using ok m by (simp add: comps_ok_def nth_append)
  next
    case False
    then have kk: "k = length comps" using k by simp
    then have "comps ! m \<in> set comps" using m by simp
    then have "C \<inter> comps ! m = {}" using disj by blast
    then show ?thesis using m kk by (simp add: nth_append)
  qed
next
  fix k assume k: "k < length (comps @ [C])"
  show "\<forall>i\<in>(comps @ [C]) ! k. succs rows i \<subseteq> \<Union>(set (take (Suc k) (comps @ [C])))"
  proof (cases "k < length comps")
    case True
    then show ?thesis using ok by (simp add: comps_ok_def nth_append)
  next
    case False
    then have kk: "k = length comps" using k by simp
    show ?thesis using clos by (auto simp: kk nth_append)
  qed
next
  fix k assume k: "k < length (comps @ [C])"
  show "\<exists>s\<in>(comps @ [C]) ! k. \<forall>i\<in>(comps @ [C]) ! k. (edge rows)\<^sup>*\<^sup>* s i"
  proof (cases "k < length comps")
    case True
    then show ?thesis using ok by (simp add: comps_ok_def nth_append)
  next
    case False
    then have kk: "k = length comps" using k by simp
    show ?thesis using seed by (simp add: kk nth_append)
  qed
qed

lemma build_loop_spec:
  assumes "set (map index rs) \<subseteq> set (map index rows)"
    and "visited = \<Union>(set comps)" and "visited \<subseteq> set (map index rows)"
    and "comps_ok rows comps"
  shows "\<exists>res. build_loop rows rs visited comps = Inr res
      \<and> visited \<union> set (map index rs) \<subseteq> \<Union>(set res)
      \<and> \<Union>(set res) \<subseteq> set (map index rows) \<and> comps_ok rows res"
  using assms
proof (induction rs arbitrary: visited comps)
  case Nil
  then show ?case by simp
next
  case (Cons r rs)
  have sub: "set (map index rs) \<subseteq> set (map index rows)"
    using Cons.prems(1) by simp
  show ?case
  proof (cases "index r \<in> visited")
    case True
    from Cons.IH[OF sub Cons.prems(2,3,4)] obtain res where
      "build_loop rows rs visited comps = Inr res"
      "visited \<union> set (map index rs) \<subseteq> \<Union>(set res)"
      "\<Union>(set res) \<subseteq> set (map index rows)" "comps_ok rows res"
      by blast
    with True show ?thesis by (intro exI[of _ res]) auto
  next
    case False
    have dq: "set [index r] \<subseteq> set (map index rows)"
      using Cons.prems(1) by simp
    have "\<forall>i\<in>set [index r] \<union> {}. (edge rows)\<^sup>*\<^sup>* (index r) i"
      by simp
    from bfs_component_spec[OF dq this, of "insert (index r) visited"]
    obtain v' c' where b: "bfs_component rows [index r] (insert (index r) visited) {} = Inr (v', c')"
      "insert (index r) visited \<subseteq> v'"
      "v' \<subseteq> insert (index r) visited \<union> set (map index rows)"
      "c' = {} \<union> set [index r] \<union> (v' - insert (index r) visited)"
      "\<forall>i\<in>set [index r] \<union> (v' - insert (index r) visited). succs rows i \<subseteq> v'"
      "\<forall>i\<in>c'. (edge rows)\<^sup>*\<^sup>* (index r) i"
      by blast
    have c': "c' = insert (index r) (v' - insert (index r) visited)"
      using b(4) by simp
    have cl0: "\<forall>i\<in>c'. succs rows i \<subseteq> v'"
      using b(5) unfolding c' by simp
    have v': "v' = visited \<union> c'"
      using b(2) unfolding c' by blast
    have "c' \<inter> visited = {}"
      using False unfolding c' by blast
    then have disj: "c' \<inter> \<Union>(set comps) = {}"
      unfolding Cons.prems(2) .
    have "\<forall>i\<in>c'. succs rows i \<subseteq> visited \<union> c'"
      using cl0 unfolding v'[symmetric] .
    then have clos: "\<forall>i\<in>c'. succs rows i \<subseteq> \<Union>(set comps) \<union> c'"
      unfolding Cons.prems(2) .
    have "index r \<in> c'"
      unfolding c' by simp
    then have seed: "\<exists>s\<in>c'. \<forall>i\<in>c'. (edge rows)\<^sup>*\<^sup>* s i"
      using b(6) by blast
    have ok: "comps_ok rows (comps @ [c'])"
      by (rule comps_ok_snoc[OF Cons.prems(4) disj clos seed])
    have u: "v' = \<Union>(set (comps @ [c']))"
      using v' unfolding Cons.prems(2) by simp blast
    have vs: "v' \<subseteq> set (map index rows)"
      using b(3) dq Cons.prems(3) by auto
    from Cons.IH[OF sub u vs ok] obtain res where
      res: "build_loop rows rs v' (comps @ [c']) = Inr res"
      "v' \<union> set (map index rs) \<subseteq> \<Union>(set res)"
      "\<Union>(set res) \<subseteq> set (map index rows)" "comps_ok rows res"
      by blast
    have "build_loop rows (r # rs) visited comps = Inr res"
      using False b(1) res(1) by simp
    moreover have "visited \<union> set (map index (r # rs)) \<subseteq> \<Union>(set res)"
      using res(2) b(2) by auto
    ultimately show ?thesis
      using res(3,4) by blast
  qed
qed

lemma ensure_parents_from_index: "map index (ensure_parents_from c rows) = map index rows"
  by (induction rows arbitrary: c) auto

lemma ensure_parents_index: "map index (ensure_parents rows) = map index rows"
  by (simp add: ensure_parents_def ensure_parents_from_index)

text \<open>
  Claim C1, as amended. For every row list \<^verbatim>\<open>_build_components\<close> returns (it raises no
  \<^verbatim>\<open>KeyError\<close>), the returned sets cover exactly the indices of the rows and are pairwise
  disjoint; every answer or leads-to edge, followed in its direction, ends in the set of
  its source or in a set returned earlier; and all members of a set are reached from one
  member along such edges. Edges are read on the rows after \<^verbatim>\<open>_ensure_parents\<close>.
\<close>

theorem components_partition:
  "\<exists>comps. snd (build_components rows) = Inr comps
     \<and> \<Union>(set comps) = set (map index rows)
     \<and> (\<forall>k<length comps. \<forall>m<k. comps ! k \<inter> comps ! m = {})
     \<and> (\<forall>k<length comps. \<forall>i\<in>comps ! k. \<forall>j. edge (fst (build_components rows)) i j
           \<longrightarrow> (\<exists>m\<le>k. j \<in> comps ! m))
     \<and> (\<forall>k<length comps. \<exists>s\<in>comps ! k. \<forall>i\<in>comps ! k.
           (edge (fst (build_components rows)))\<^sup>*\<^sup>* s i)"
proof -
  define rows' where "rows' = ensure_parents rows"
  have f: "fst (build_components rows) = rows'"
    and s: "snd (build_components rows) = build_loop rows' rows' {} []"
    by (simp_all add: build_components_def rows'_def Let_def)
  have "comps_ok rows' []"
    by (simp add: comps_ok_def)
  from build_loop_spec[OF subset_refl _ _ this, of "{}"] obtain comps where
    c: "build_loop rows' rows' {} [] = Inr comps" "\<Union>(set comps) = set (map index rows')"
      "comps_ok rows' comps"
    by (simp del: set_map) blast
  have cl: "\<exists>m\<le>k. j \<in> comps ! m" if "k < length comps" "i \<in> comps ! k" "edge rows' i j" for k i j
  proof -
    have "succs rows' i \<subseteq> \<Union>(set (take (Suc k) comps))"
      using c(3) that(1,2) unfolding comps_ok_def by blast
    then have "j \<in> \<Union>(set (take (Suc k) comps))"
      using that(3) by (auto simp: succs_def)
    then obtain m where "m < length (take (Suc k) comps)" "j \<in> take (Suc k) comps ! m"
      by (auto simp: in_set_conv_nth)
    then show ?thesis by (intro exI[of _ m]) auto
  qed
  show ?thesis
    unfolding f s using c cl
    by (intro exI[of _ comps]) (simp add: comps_ok_def rows'_def ensure_parents_index)
qed

theorem components_partition_witness:
  "snd (build_components rows_split) = Inr [{3}, {1, 2}]
   \<and> \<Union>(set [{3}, {1, 2}]) = set (map index rows_split)
   \<and> [{3}, {1, 2 :: int}] ! 1 \<inter> [{3}, {1, 2}] ! 0 = {}"
proof -
  from components_partition[of rows_split] obtain comps where
    c: "snd (build_components rows_split) = Inr comps"
      "\<Union>(set comps) = set (map index rows_split)"
      "\<forall>k<length comps. \<forall>m<k. comps ! k \<inter> comps ! m = {}"
    by blast
  have "snd (build_components rows_split) = Inr [{3}, {1, 2}]"
    by code_simp
  with c(1) have "comps = [{3}, {1, 2}]" by simp
  with c show ?thesis by simp
qed

text \<open>
  The claim as stated also puts any two indices joined by an edge into one set, whatever
  the direction. With the rows in the order NPC 3, NPC 1, reply 2 (\<open>next = 3\<close>), the line
  \<open>3\<close> is visited first and closed as a set of its own; the reply \<open>2\<close> that leads to it
  lands in the second set.
\<close>

theorem components_split_counterexample:
  "snd (build_components rows_split) = Inr [{3}, {1, 2}]
   \<and> index (rows_split ! 2) = 2 \<and> nxt (rows_split ! 2) = Some 3
   \<and> index (rows_split ! 0) = 3 \<and> (2::int) \<notin> {3} \<and> (3::int) \<notin> {1, 2}"
proof -
  have "snd (build_components rows_split) = Inr [{3}, {1, 2}]"
    by code_simp
  then show ?thesis
    by (simp add: rows_split_def mk_row_def)
qed


section \<open>The layered layout on concrete inputs\<close>

text \<open>
  Claim C2, as amended. For the four rows of the scenario \<^verbatim>\<open>_build_components\<close> returns
  the single component \<open>{1, 2, 3, 4}\<close>, and the layering of \<^verbatim>\<open>calculate_layout\<close> puts the
  nodes \<open>1\<close> and \<open>4\<close> on layer 0 and the nodes \<open>2\<close> and \<open>3\<close> on layer 1.
\<close>

theorem scenario_layers:
  "snd (layered_layers rows_scenario)
     = Inr ([{1, 2, 3, 4}], [(1, 0), (4, 0), (2, 1), (3, 1)], [(0, [1, 4]), (1, [2, 3])])"
  by code_simp

text \<open>
  The claim as stated puts node \<open>4\<close> on layer 2. It is an NPC line without
  \<^verbatim>\<open>parent_npc\<close>, so it is seeded at level 0 like node \<open>1\<close>, and the later queue entry
  \<open>(4, 2)\<close> is skipped.
\<close>

theorem scenario_node4_counterexample:
  "\<exists>comps ntl layers. snd (layered_layers rows_scenario) = Inr (comps, ntl, layers)
     \<and> map_of ntl 4 = Some 0 \<and> map_of ntl 4 \<noteq> Some 2"
proof -
  have "snd (layered_layers rows_scenario)
     = Inr ([{1, 2, 3, 4}], [(1, 0), (4, 0), (2, 1), (3, 1)], [(0, [1, 4]), (1, [2, 3])])"
    by code_simp
  then show ?thesis by simp
qed

text \<open>
  Claim C3: every input index has a position. \<^verbatim>\<open>calculate_layout\<close> on a reply \<open>1\<close>
  followed by the NPC line \<open>2\<close> returns a map without an entry for \<open>1\<close>.
\<close>

theorem layered_orphan_unplaced:
  "\<exists>P. snd (calculate_layout rows_orphan NODE_W_BASE NODE_H_BASE H_GAP_BASE V_GAP_BASE) = Inr P
     \<and> 1 \<in> set (map index rows_orphan) \<and> P 1 = None \<and> P 2 = Some (- 180, 0)"
proof -
  have "(case snd (calculate_layout rows_orphan NODE_W_BASE NODE_H_BASE H_GAP_BASE V_GAP_BASE) of
          Inl e \<Rightarrow> False | Inr P \<Rightarrow> P 1 = None \<and> P 2 = Some (- 180, 0))"
    by code_simp
  moreover have "1 \<in> set (map index rows_orphan)"
    by (simp add: rows_orphan_def mk_row_def)
  ultimately show ?thesis
    by (cases "snd (calculate_layout rows_orphan NODE_W_BASE NODE_H_BASE H_GAP_BASE V_GAP_BASE)")
      auto
qed

text \<open>
  Claim C4: no two rectangles overlap. \<^verbatim>\<open>calculate_layout\<close> centres each layer on the
  running offset, which advances by the width of the component before; a component one
  node wide followed by one with four replies on a layer puts the replies \<open>2\<close> and \<open>4\<close>
  sixty units apart on the same layer.
\<close>

theorem layered_components_overlap:
  "\<exists>P. snd (calculate_layout rows_wide NODE_W_BASE NODE_H_BASE H_GAP_BASE V_GAP_BASE) = Inr P
     \<and> P 2 = Some (- 180, 200) \<and> P 4 = Some (- 120, 200)
     \<and> overlap NODE_W_BASE NODE_H_BASE (- 180, 200) (- 120, 200)"
proof -
  have "(case snd (calculate_layout rows_wide NODE_W_BASE NODE_H_BASE H_GAP_BASE V_GAP_BASE) of
          Inl e \<Rightarrow> False | Inr P \<Rightarrow> P 2 = Some (- 180, 200) \<and> P 4 = Some (- 120, 200))"
    by code_simp
  moreover have "overlap NODE_W_BASE NODE_H_BASE (- 180, 200) (- 120, 200)"
    by (simp add: overlap_def NODE_W_BASE_def NODE_H_BASE_def)
  ultimately show ?thesis
    by (cases "snd (calculate_layout rows_wide NODE_W_BASE NODE_H_BASE H_GAP_BASE V_GAP_BASE)")
      auto
qed


section \<open>What the readers write\<close>

lemma ensure_parents_from_length: "length (ensure_parents_from c rows) = length rows"
  by (induction rows arbitrary: c) auto

lemma find_append_case:
  "find P (xs @ ys) = (case find P xs of Some x \<Rightarrow> Some x | None \<Rightarrow> find P ys)"
  by (induction xs) auto

lemma last_npc_Cons:
  "last_npc (r # rs) = (case last_npc rs of Some j \<Rightarrow> Some j
      | None \<Rightarrow> if is_pc_reply r then None else Some (index r))"
  by (auto simp: last_npc_def find_append_case split: option.splits)

lemma ensure_parents_from_nth:
  "i < length rows \<Longrightarrow>
   ensure_parents_from c rows ! i =
     (if is_pc_reply (rows ! i) \<and> parent_npc (rows ! i) = None
      then (rows ! i)\<lparr>parent_npc := (case last_npc (take i rows) of Some j \<Rightarrow> Some j | None \<Rightarrow> c)\<rparr>
      else rows ! i)"
proof (induction rows arbitrary: c i)
  case Nil
  then show ?case by simp
next
  case (Cons r rs)
  show ?case
  proof (cases i)
    case 0
    then show ?thesis by (simp add: last_npc_def)
  next
    case (Suc k)
    then have k: "k < length rs" using Cons.prems by simp
    show ?thesis
    proof (cases "is_pc_reply r")
      case True
      then show ?thesis
        using Cons.IH[OF k, of c] Suc
        by (auto simp: last_npc_Cons split: option.splits)
    next
      case False
      then show ?thesis
        using Cons.IH[OF k, of "Some (index r)"] Suc
        by (auto simp: last_npc_Cons split: option.splits)
    qed
  qed
qed

lemma ensure_parents_from_idem:
  "ensure_parents_from c (ensure_parents_from c rows) = ensure_parents_from c rows"
proof (induction rows arbitrary: c)
  case Nil
  then show ?case by simp
next
  case (Cons r rs)
  show ?case
  proof (cases "is_pc_reply r")
    case False
    then show ?thesis by (simp add: Cons.IH)
  next
    case True
    then have "is_pc_reply (r\<lparr>parent_npc := c\<rparr>)"
      by (simp add: is_pc_reply_def)
    with True show ?thesis
      by (cases "parent_npc r"; cases c) (simp_all add: Cons.IH)
  qed
qed

lemma ensure_parents_idem: "ensure_parents (ensure_parents rows) = ensure_parents rows"
  by (simp add: ensure_parents_def ensure_parents_from_idem)

lemma tree_ensure_parents_id: "tree_ensure_parents rows = rows"
proof -
  have "fold (\<lambda>r rows'.
            if is_pc_reply r \<and> parent_npc r = None
            then (let candidates = f r in rows')
            else rows') xs ys = ys" for f :: "DlgRow \<Rightarrow> int list" and xs ys :: "DlgRow list"
    by (induction xs arbitrary: ys) (simp_all add: Let_def)
  then show ?thesis
    unfolding tree_ensure_parents_def by (simp add: Let_def)
qed

lemma fst_build_components: "fst (build_components rows) = ensure_parents rows"
  by (simp add: build_components_def Let_def)

lemma fst_calculate_layout:
  "fst (calculate_layout rows node_w node_h h_gap v_gap) = ensure_parents rows"
proof (cases "rows = []")
  case True
  then show ?thesis by (simp add: calculate_layout_def ensure_parents_def)
next
  case False
  have "fst (layered_layers rows) = ensure_parents rows"
    by (simp add: layered_layers_def Let_def split_def fst_build_components ensure_parents_idem)
  with False show ?thesis
    by (simp add: calculate_layout_def Let_def split_def)
qed

lemma fst_calculate_tree_layout:
  "fst (calculate_tree_layout rows orientation node_w node_h h_gap v_gap) = rows"
  by (simp add: calculate_tree_layout_def Let_def tree_ensure_parents_id)

text \<open>
  Claim C9, as amended. \<^verbatim>\<open>calculate_tree_layout\<close> leaves every row as it was.
  \<^verbatim>\<open>_build_components\<close> and \<^verbatim>\<open>calculate_layout\<close> leave the rows as \<^verbatim>\<open>_ensure_parents\<close>
  leaves them: the same rows in the same order, changed only in the \<^verbatim>\<open>parent_npc\<close> of the
  replies that had none, which becomes the index of the last NPC line before the reply
  (it stays unset when there is none).
\<close>

theorem readers_frame:
  "fst (build_components rows) = ensure_parents rows
   \<and> fst (calculate_layout rows node_w node_h h_gap v_gap) = ensure_parents rows
   \<and> fst (calculate_tree_layout rows orientation node_w node_h h_gap v_gap) = rows
   \<and> length (ensure_parents rows) = length rows
   \<and> (\<forall>i<length rows.
         ensure_parents rows ! i =
           (if is_pc_reply (rows ! i) \<and> parent_npc (rows ! i) = None
            then (rows ! i)\<lparr>parent_npc := last_npc (take i rows)\<rparr>
            else rows ! i))"
proof (intro conjI allI impI)
  fix i assume "i < length rows"
  then show "ensure_parents rows ! i =
           (if is_pc_reply (rows ! i) \<and> parent_npc (rows ! i) = None
            then (rows ! i)\<lparr>parent_npc := last_npc (take i rows)\<rparr>
            else rows ! i)"
    unfolding ensure_parents_def
    by (simp add: ensure_parents_from_nth split: option.splits)
qed (simp_all add: fst_build_components fst_calculate_layout fst_calculate_tree_layout
      ensure_parents_def ensure_parents_from_length)

theorem readers_frame_witness:
  "fst (build_components rows_scenario)
     = [mk_row 1 None None, mk_row 2 (Some 1) (Some 1), mk_row 3 (Some 4) (Some 1),
        mk_row 4 None None]
   \<and> fst (calculate_tree_layout rows_scenario ''vertical'' 300 90 60 110) = rows_scenario"
proof -
  have "ensure_parents rows_scenario
     = [mk_row 1 None None, mk_row 2 (Some 1) (Some 1), mk_row 3 (Some 4) (Some 1),
        mk_row 4 None None]"
    by (simp add: ensure_parents_def rows_scenario_def mk_row_def is_pc_reply_def)
  then show ?thesis
    using readers_frame[of rows_scenario 300 90 60 110 "''vertical''"] by simp
qed

text \<open>
  The claim as stated has every field unchanged after each of the three calls. In the
  scenario the reply \<open>2\<close> enters without \<^verbatim>\<open>parent_npc\<close> and leaves
  \<^verbatim>\<open>_build_components\<close> and \<^verbatim>\<open>calculate_layout\<close> with \<^verbatim>\<open>parent_npc = 1\<close>.
\<close>

theorem build_components_mutates_counterexample:
  "parent_npc (rows_scenario ! 1) = None
   \<and> parent_npc (fst (build_components rows_scenario) ! 1) = Some 1
   \<and> parent_npc (fst (calculate_layout rows_scenario 300 90 60 110) ! 1) = Some 1"
  by (simp add: fst_build_components fst_calculate_layout ensure_parents_def rows_scenario_def
      mk_row_def is_pc_reply_def)

text \<open>
  The forest layout in horizontal orientation steps the layers by \<open>node_h + v_gap\<close> along
  the axis on which the rectangles are \<open>node_w\<close> wide: with the default sizes the first
  two nodes of a chain overlap.
\<close>

lemma tree_horizontal_overlap:
  "\<exists>P. snd (calculate_tree_layout rows_chain ''horizontal'' NODE_W_BASE NODE_H_BASE H_GAP_BASE
            V_GAP_BASE) = Some (Inr P)
     \<and> P 1 = Some (0, 0) \<and> P 2 = Some (200, 0)
     \<and> overlap NODE_W_BASE NODE_H_BASE (0, 0) (200, 0)"
proof -
  have "(case snd (calculate_tree_layout rows_chain ''horizontal'' NODE_W_BASE NODE_H_BASE
            H_GAP_BASE V_GAP_BASE) of
          Some (Inr P) \<Rightarrow> P 1 = Some (0, 0) \<and> P 2 = Some (200, 0) | _ \<Rightarrow> False)"
    by code_simp
  moreover have "overlap NODE_W_BASE NODE_H_BASE (0, 0) (200, 0)"
    by (simp add: overlap_def NODE_W_BASE_def NODE_H_BASE_def)
  ultimately show ?thesis
    by (auto split: option.splits sum.splits)
qed


section \<open>The layering loops end, and assign no layer twice\<close>

lemma layering_fuel_enough:
  "(length rows + 1) * unvisited rows (fst ` set ntl) + length q \<le> fuel \<Longrightarrow>
   layering_fuel fuel rows q ntl layers = Some (layering rows q ntl layers)"
proof (induction rows q ntl layers arbitrary: fuel rule: layering.induct)
  case (1 rows ntl layers)
  then show ?case by simp
next
  case (2 rows node_idx level q ntl layers)
  from "2.prems" obtain f where f: "fuel = Suc f"
    by (cases fuel) auto
  show ?case
  proof (cases "node_idx \<in> fst ` set ntl")
    case True
    have "(length rows + 1) * unvisited rows (fst ` set ntl) + length q \<le> f"
      using "2.prems" f by simp
    from "2.IH"(1)[OF True this] True show ?thesis
      by (simp add: f)
  next
    case False
    show ?thesis
    proof (cases "nodes_map rows node_idx")
      case None
      with False show ?thesis by (simp add: f)
    next
      case (Some node)
      have "unvisited rows (insert node_idx (fst ` set ntl)) < unvisited rows (fst ` set ntl)"
        using False Some by (intro unvisited_insert nodes_map_Some_index)
      then have "unvisited rows (insert node_idx (fst ` set ntl)) + 1
          \<le> unvisited rows (fst ` set ntl)"
        by simp
      then have "(length rows + 1) * (unvisited rows (insert node_idx (fst ` set ntl)) + 1)
          \<le> (length rows + 1) * unvisited rows (fst ` set ntl)"
        by (rule mult_le_mono2)
      moreover have "length (expand rows node node_idx level) \<le> length rows"
        using Some by (intro length_expand)
      ultimately have "(length rows + 1) * unvisited rows (fst ` set (ntl @ [(node_idx, level)]))
          + length (q @ expand rows node node_idx level) \<le> f"
        using "2.prems" f by simp
      from "2.IH"(2)[OF False Some this] False Some show ?thesis
        by (simp add: f)
    qed
  qed
qed

lemma bfs_layers_fuel_enough:
  "2 * unvisited rows visited + length dq \<le> fuel \<Longrightarrow>
   bfs_layers_fuel fuel rows dq visited comp_nodes layers
     = Some (bfs_layers rows dq visited comp_nodes layers)"
proof (induction rows dq visited comp_nodes layers arbitrary: fuel rule: bfs_layers.induct)
  case (1 rows visited comp_nodes layers)
  then show ?case by simp
next
  case (2 rows idx lvl dq visited comp_nodes layers)
  from "2.prems" obtain f where f: "fuel = Suc f"
    by (cases fuel) auto
  show ?case
  proof (cases "nodes_map rows idx")
    case None
    then show ?thesis by (simp add: f)
  next
    case (Some node)
    define vd where "vd = visit_node rows node idx lvl (visited, dq)"
    have "2 * unvisited rows (fst vd) + length (snd vd) \<le> f"
      using visit_node_measure[of rows node idx lvl visited dq] "2.prems" f
      by (simp add: vd_def)
    from "2.IH"[OF Some vd_def this] Some show ?thesis
      by (simp add: f vd_def Let_def)
  qed
qed

lemma unvisited_le: "unvisited rows V \<le> length rows"
proof -
  have "card (set (map index rows) - V) \<le> card (set (map index rows))"
    by (intro card_mono) auto
  also have "\<dots> \<le> length (map index rows)"
    by (rule card_length)
  finally show ?thesis by (simp add: unvisited_def)
qed

lemma layering_bound:
  assumes "length rows * length rows + 2 * length rows \<le> fuel"
  shows "layering_fuel fuel rows (root_queue rows) [] [] = Some (layer_assignment rows)"
proof -
  have "length (root_queue rows) \<le> length rows"
    by (simp add: root_queue_def)
  moreover have "(length rows + 1) * unvisited rows {} \<le> (length rows + 1) * length rows"
    by (intro mult_le_mono2 unvisited_le)
  ultimately have "(length rows + 1) * unvisited rows (fst ` set []) + length (root_queue rows) \<le> fuel"
    using assms by simp
  then show ?thesis
    unfolding layer_assignment_def by (rule layering_fuel_enough)
qed

lemma bfs_layers_bound:
  assumes "2 * length rows + 1 \<le> fuel"
  shows "bfs_layers_fuel fuel rows [(root_idx, 0)] visited {} []
     = Some (bfs_layers rows [(root_idx, 0)] visited {} [])"
proof -
  have "2 * unvisited rows visited + length [(root_idx, 0::int)] \<le> fuel"
    using unvisited_le[of rows visited] assms by simp
  then show ?thesis
    by (rule bfs_layers_fuel_enough)
qed

lemma layers_get_append:
  "layers_get (layers_append L l x) l' = (if l' = l then layers_get L l @ [x] else layers_get L l')"
  by (induction L l x rule: layers_append.induct) (auto simp: layers_get_def)

lemma layer_nodes_append_set:
  "set (layer_nodes (layers_append L l x)) = insert x (set (layer_nodes L))"
  by (induction L l x rule: layers_append.induct) (auto simp: layer_nodes_def)

lemma layer_nodes_append_distinct:
  "distinct (layer_nodes (layers_append L l x))
     = (distinct (layer_nodes L) \<and> x \<notin> set (layer_nodes L))"
proof (induction L l x rule: layers_append.induct)
  case (1 level x)
  then show ?case by (simp add: layer_nodes_def)
next
  case (2 l xs rest level x)
  have s: "set (concat (map snd (layers_append rest level x)))
      = insert x (set (concat (map snd rest)))"
    using layer_nodes_append_set[of rest level x] by (simp add: layer_nodes_def)
  show ?case
  proof (cases "l = level")
    case True
    then show ?thesis by (auto simp: layer_nodes_def)
  next
    case False
    have "distinct (concat (map snd (layers_append rest level x)))
        = (distinct (concat (map snd rest)) \<and> x \<notin> set (concat (map snd rest)))"
      using 2 False by (simp add: layer_nodes_def)
    then show ?thesis
      using False s by (simp add: layer_nodes_def) blast
  qed
qed

lemma layers_append_keys:
  "set (map fst (layers_append L l x)) = insert l (set (map fst L))"
  by (induction L l x rule: layers_append.induct) auto

lemma layers_append_keys_distinct:
  "distinct (map fst L) \<Longrightarrow> distinct (map fst (layers_append L l x))"
  by (induction L l x rule: layers_append.induct) (auto simp: layers_append_keys[simplified])

lemma layers_agree_step:
  assumes "layers_agree ntl layers" "i \<notin> fst ` set ntl"
  shows "layers_agree (ntl @ [(i, l)]) (layers_append layers l i)"
proof -
  have a: "distinct (map fst ntl)" "distinct (map fst layers)" "distinct (layer_nodes layers)"
    "set (layer_nodes layers) = fst ` set ntl"
    "\<forall>(j, k)\<in>set ntl. j \<in> set (layers_get layers k)"
    using assms(1) by (simp_all add: layers_agree_def)
  have 1: "distinct (map fst (ntl @ [(i, l)]))"
    using a(1) assms(2) by simp
  have 2: "distinct (map fst (layers_append layers l i))"
    using a(2) by (rule layers_append_keys_distinct)
  have 3: "distinct (layer_nodes (layers_append layers l i))"
    using a(3,4) assms(2) by (simp add: layer_nodes_append_distinct)
  have 4: "set (layer_nodes (layers_append layers l i)) = fst ` set (ntl @ [(i, l)])"
    using a(4) by (simp add: layer_nodes_append_set)
  have 5: "\<forall>(j, k)\<in>set (ntl @ [(i, l)]). j \<in> set (layers_get (layers_append layers l i) k)"
  proof (clarify)
    fix j k assume "(j, k) \<in> set (ntl @ [(i, l)])"
    then consider "(j, k) \<in> set ntl" | "j = i" "k = l" by auto
    then show "j \<in> set (layers_get (layers_append layers l i) k)"
    proof cases
      case 1
      then have "j \<in> set (layers_get layers k)" using a(5) by blast
      then show ?thesis by (cases "k = l") (simp_all add: layers_get_append)
    next
      case 2
      then show ?thesis by (simp add: layers_get_append)
    qed
  qed
  show ?thesis
    unfolding layers_agree_def using 1 2 3 4 5 by blast
qed

lemma expand_subset: "fst ` set (expand rows node node_idx level) \<subseteq> set (map index rows)"
  using children_subset[of rows node_idx]
  by (auto simp: expand_def dom_nodes_map split: option.splits if_splits)

lemma layering_spec:
  assumes "fst ` set q \<subseteq> set (map index rows)" "layers_agree ntl layers"
  shows "\<exists>ntl' layers'. layering rows q ntl layers = Inr (ntl', layers')
      \<and> layers_agree ntl' layers' \<and> set ntl \<subseteq> set ntl'
      \<and> fst ` set ntl' \<subseteq> fst ` set ntl \<union> set (map index rows)"
  using assms
proof (induction rows q ntl layers rule: layering.induct)
  case (1 rows ntl layers)
  then show ?case by auto
next
  case (2 rows node_idx level q ntl layers)
  have q: "fst ` set q \<subseteq> set (map index rows)" and i: "node_idx \<in> set (map index rows)"
    using "2.prems"(1) by auto
  show ?case
  proof (cases "node_idx \<in> fst ` set ntl")
    case True
    from "2.IH"(1)[OF True q "2.prems"(2)] True show ?thesis by simp
  next
    case False
    from i obtain node where node: "nodes_map rows node_idx = Some node"
      using dom_nodes_map[of rows] by (cases "nodes_map rows node_idx") auto
    have q': "fst ` set (q @ expand rows node node_idx level) \<subseteq> set (map index rows)"
      using q expand_subset[of rows node node_idx level] by auto
    have a: "layers_agree (ntl @ [(node_idx, level)]) (layers_append layers level node_idx)"
      using "2.prems"(2) False by (rule layers_agree_step)
    from "2.IH"(2)[OF False node q' a] obtain ntl' layers' where
      r: "layering rows (q @ expand rows node node_idx level) (ntl @ [(node_idx, level)])
            (layers_append layers level node_idx) = Inr (ntl', layers')"
        "layers_agree ntl' layers'" "set (ntl @ [(node_idx, level)]) \<subseteq> set ntl'"
        "fst ` set ntl' \<subseteq> fst ` set (ntl @ [(node_idx, level)]) \<union> set (map index rows)"
      by blast
    have "layering rows ((node_idx, level) # q) ntl layers = Inr (ntl', layers')"
      using False node r(1) by simp
    moreover have "set ntl \<subseteq> set ntl'" using r(3) by auto
    moreover have "fst ` set ntl' \<subseteq> fst ` set ntl \<union> set (map index rows)"
      using r(4) i by auto
    ultimately show ?thesis using r(2) by blast
  qed
qed

lemma visit_children_lvl_spec:
  "\<exists>xs. visit_children_lvl lvl chs (visited, dq) = (visited \<union> fst ` set xs, dq @ xs)
     \<and> distinct (map fst xs) \<and> fst ` set xs \<inter> visited = {} \<and> fst ` set xs \<subseteq> set chs"
proof (induction chs arbitrary: visited dq)
  case Nil
  show ?case by (intro exI[of _ "[]"]) simp
next
  case (Cons ch chs)
  show ?case
  proof (cases "ch \<in> visited")
    case True
    from Cons.IH[of visited dq] obtain xs where
      "visit_children_lvl lvl chs (visited, dq) = (visited \<union> fst ` set xs, dq @ xs)"
      "distinct (map fst xs)" "fst ` set xs \<inter> visited = {}" "fst ` set xs \<subseteq> set chs"
      by blast
    with True show ?thesis
      by (intro exI[of _ xs]) auto
  next
    case False
    from Cons.IH[of "insert ch visited" "dq @ [(ch, lvl + 1)]"] obtain xs where
      x: "visit_children_lvl lvl chs (insert ch visited, dq @ [(ch, lvl + 1)])
         = (insert ch visited \<union> fst ` set xs, (dq @ [(ch, lvl + 1)]) @ xs)"
      "distinct (map fst xs)" "fst ` set xs \<inter> insert ch visited = {}" "fst ` set xs \<subseteq> set chs"
      by blast
    have "ch \<notin> fst ` set xs" using x(3) by auto
    with False x show ?thesis
      by (intro exI[of _ "(ch, lvl + 1) # xs"]) auto
  qed
qed

lemma visit_node_spec:
  "\<exists>xs. visit_node rows node idx lvl (visited, dq) = (visited \<union> fst ` set xs, dq @ xs)
     \<and> distinct (map fst xs) \<and> fst ` set xs \<inter> visited = {}
     \<and> fst ` set xs \<subseteq> set (map index rows)"
proof (cases "is_pc_reply node")
  case False
  from visit_children_lvl_spec[of lvl "children rows idx" visited dq] obtain xs where
    "visit_children_lvl lvl (children rows idx) (visited, dq) = (visited \<union> fst ` set xs, dq @ xs)"
    "distinct (map fst xs)" "fst ` set xs \<inter> visited = {}" "fst ` set xs \<subseteq> set (children rows idx)"
    by blast
  with False children_subset[of rows idx] show ?thesis
    by (intro exI[of _ xs]) (auto simp: visit_node_def)
next
  case True
  then obtain n where n: "nxt node = Some n"
    by (auto simp: is_pc_reply_def)
  show ?thesis
  proof (cases "n \<in> dom (nodes_map rows) \<and> n \<notin> visited")
    case True
    with n \<open>is_pc_reply node\<close> show ?thesis
      by (intro exI[of _ "[(n, lvl + 1)]"]) (auto simp: visit_node_def dom_nodes_map)
  next
    case False
    with n \<open>is_pc_reply node\<close> show ?thesis
      by (intro exI[of _ "[]"]) (auto simp: visit_node_def)
  qed
qed

lemma bfs_layers_spec:
  assumes "fst ` set dq \<subseteq> set (map index rows)"
    and "distinct (map fst dq)" and "fst ` set dq \<inter> comp_nodes = {}"
    and "comp_nodes \<union> fst ` set dq \<subseteq> visited"
    and "set (layer_nodes layers) = comp_nodes" and "distinct (layer_nodes layers)"
  shows "\<exists>v' c' L'. bfs_layers rows dq visited comp_nodes layers = Inr (v', c', L')
      \<and> visited \<subseteq> v' \<and> v' \<subseteq> visited \<union> set (map index rows)
      \<and> c' = comp_nodes \<union> fst ` set dq \<union> (v' - visited)
      \<and> set (layer_nodes L') = c' \<and> distinct (layer_nodes L')"
  using assms
proof (induction rows dq visited comp_nodes layers rule: bfs_layers.induct)
  case (1 rows visited comp_nodes layers)
  then show ?case by simp
next
  case (2 rows idx lvl dq visited comp_nodes layers)
  from "2.prems"(1) obtain node where node: "nodes_map rows idx = Some node"
    using dom_nodes_map[of rows] by (cases "nodes_map rows idx") auto
  from visit_node_spec[of rows node idx lvl visited dq] obtain xs where
    vd: "visit_node rows node idx lvl (visited, dq) = (visited \<union> fst ` set xs, dq @ xs)"
    and xs: "distinct (map fst xs)" "fst ` set xs \<inter> visited = {}"
      "fst ` set xs \<subseteq> set (map index rows)"
    by blast
  define D where "D = fst ` set dq"
  define X where "X = fst ` set xs"
  define v1 where "v1 = visited \<union> X"
  have pr: "insert idx D \<subseteq> set (map index rows)" "idx \<notin> D" "distinct (map fst dq)"
    "insert idx D \<inter> comp_nodes = {}" "comp_nodes \<union> insert idx D \<subseteq> visited"
    using "2.prems"(1,2,3,4) unfolding D_def by simp_all
  have xp: "X \<inter> visited = {}" "X \<subseteq> set (map index rows)"
    using xs(2,3) unfolding X_def by simp_all
  have dqxs: "fst ` set (dq @ xs) = D \<union> X"
    unfolding D_def X_def by (simp add: image_Un)
  have idx: "idx \<notin> comp_nodes" "idx \<in> visited"
    using pr(4,5) by blast+
  have p1: "fst ` set (dq @ xs) \<subseteq> set (map index rows)"
    unfolding dqxs using pr(1) xp(2) by blast
  have "D \<inter> X = {}"
    using pr(5) xp(1) by blast
  then have p2: "distinct (map fst (dq @ xs))"
    using pr(3) xs(1) unfolding D_def X_def by simp
  have p3: "fst ` set (dq @ xs) \<inter> insert idx comp_nodes = {}"
    unfolding dqxs using pr(2,4,5) xp(1) by blast
  have p4: "insert idx comp_nodes \<union> fst ` set (dq @ xs) \<subseteq> v1"
    unfolding dqxs v1_def using pr(5) by blast
  have p5: "set (layer_nodes (layers_append layers lvl idx)) = insert idx comp_nodes"
    using "2.prems"(5) by (simp add: layer_nodes_append_set)
  have p6: "distinct (layer_nodes (layers_append layers lvl idx))"
    using "2.prems"(5,6) idx(1) by (simp add: layer_nodes_append_distinct)
  have vd': "visit_node rows node idx lvl (visited, dq) = (v1, dq @ xs)"
    using vd by (simp add: v1_def X_def)
  from "2.IH"[OF node refl, unfolded vd' fst_conv snd_conv, OF p1 p2 p3 p4 p5 p6]
  obtain v' c' L' where r:
    "bfs_layers rows (dq @ xs) v1 (insert idx comp_nodes) (layers_append layers lvl idx)
       = Inr (v', c', L')"
    "v1 \<subseteq> v'" "v' \<subseteq> v1 \<union> set (map index rows)"
    "c' = insert idx comp_nodes \<union> fst ` set (dq @ xs) \<union> (v' - v1)"
    "set (layer_nodes L') = c'" "distinct (layer_nodes L')"
    by blast
  have e: "bfs_layers rows ((idx, lvl) # dq) visited comp_nodes layers = Inr (v', c', L')"
    using r(1) by (simp add: node vd' Let_def)
  have a: "visited \<subseteq> v'" using r(2) unfolding v1_def by blast
  have b: "v' \<subseteq> visited \<union> set (map index rows)"
    using r(3) xp(2) unfolding v1_def by blast
  have "fst ` set ((idx, lvl) # dq) = insert idx D"
    unfolding D_def by simp
  moreover have "c' = comp_nodes \<union> insert idx D \<union> (v' - visited)"
    unfolding r(4) dqxs using r(2) xp(1) unfolding v1_def by blast
  ultimately have c: "c' = comp_nodes \<union> fst ` set ((idx, lvl) # dq) \<union> (v' - visited)"
    by simp
  show ?case
    using e a b c r(5,6) by blast
qed

lemma tree_seeds_spec:
  assumes "set roots \<subseteq> set (map index rows)" "tree_inv rows acc"
  shows "\<exists>acc'. tree_seeds rows roots acc = Inr acc'
      \<and> tree_inv rows acc' \<and> fst acc \<union> set roots \<subseteq> fst acc'"
  using assms
proof (induction roots arbitrary: acc)
  case Nil
  then show ?case by simp
next
  case (Cons r roots)
  obtain visited comps lbc where acc: "acc = (visited, comps, lbc)"
    by (cases acc) auto
  have sub: "set roots \<subseteq> set (map index rows)" and rK: "r \<in> set (map index rows)"
    using Cons.prems(1) by simp_all
  show ?case
  proof (cases "r \<in> visited")
    case True
    from Cons.IH[OF sub Cons.prems(2)] obtain acc' where
      a: "tree_seeds rows roots acc = Inr acc'" "tree_inv rows acc'"
        "fst acc \<union> set roots \<subseteq> fst acc'"
      by (elim exE conjE)
    have "tree_seeds rows (r # roots) acc = Inr acc'"
      using True a(1) by (simp add: acc)
    moreover have "fst acc \<union> set (r # roots) \<subseteq> fst acc'"
      using a(3) True by (simp add: acc) blast
    ultimately show ?thesis
      using a(2) by (intro exI[of _ acc'] conjI)
  next
    case False
    have c: "visited = set (concat (map layer_nodes lbc))
      \<and> distinct (concat (map layer_nodes lbc))
      \<and> comps = map (\<lambda>L. set (layer_nodes L)) lbc \<and> visited \<subseteq> set (map index rows)"
      using Cons.prems(2) unfolding tree_inv_def acc prod.case .
    note inv = c[THEN conjunct1] c[THEN conjunct2, THEN conjunct1]
      c[THEN conjunct2, THEN conjunct2, THEN conjunct1]
      c[THEN conjunct2, THEN conjunct2, THEN conjunct2]
    have q1: "fst ` set [(r, 0::int)] \<subseteq> set (map index rows)"
      using rK by simp
    have q2: "distinct (map fst [(r, 0::int)])" by simp
    have q3: "fst ` set [(r, 0::int)] \<inter> {} = {}" by simp
    have q4: "{} \<union> fst ` set [(r, 0::int)] \<subseteq> insert r visited" by simp
    have q5: "set (layer_nodes []) = {}" "distinct (layer_nodes [])"
      by (simp_all add: layer_nodes_def)
    from bfs_layers_spec[OF q1 q2 q3 q4 q5] obtain v' c' L' where b0:
      "bfs_layers rows [(r, 0)] (insert r visited) {} [] = Inr (v', c', L')"
      "insert r visited \<subseteq> v'" "v' \<subseteq> insert r visited \<union> set (map index rows)"
      "c' = {} \<union> fst ` set [(r, 0::int)] \<union> (v' - insert r visited)"
      "set (layer_nodes L') = c'" "distinct (layer_nodes L')"
      by (elim exE conjE)
    have b4: "c' = insert r (v' - insert r visited)"
      using b0(4) by simp
    have v': "v' = visited \<union> c'" using b0(2) unfolding b4 by blast
    have dj: "visited \<inter> c' = {}" using False unfolding b4 by blast
    have vK: "v' \<subseteq> set (map index rows)" using b0(3) rK inv(4) by blast
    have i1: "v' = set (concat (map layer_nodes (lbc @ [L'])))"
      unfolding v' using inv(1) b0(5) by simp
    have i2: "distinct (concat (map layer_nodes (lbc @ [L'])))"
      using inv(1,2) b0(5,6) dj by simp
    have i3: "comps @ [c'] = map (\<lambda>L. set (layer_nodes L)) (lbc @ [L'])"
      using inv(3) b0(5) by simp
    have inv': "tree_inv rows (v', comps @ [c'], lbc @ [L'])"
      unfolding tree_inv_def prod.case using i1 i2 i3 vK by (intro conjI)
    from Cons.IH[OF sub inv'] obtain acc2 where
      r2: "tree_seeds rows roots (v', comps @ [c'], lbc @ [L']) = Inr acc2"
      "tree_inv rows acc2" "fst (v', comps @ [c'], lbc @ [L']) \<union> set roots \<subseteq> fst acc2"
      by (elim exE conjE)
    have "tree_seeds rows (r # roots) acc = Inr acc2"
      using False b0(1) r2(1) by (simp add: acc)
    moreover have "fst acc \<union> set (r # roots) \<subseteq> fst acc2"
      using r2(3) b0(2) by (simp add: acc) blast
    ultimately show ?thesis
      using r2(2) by (intro exI[of _ acc2] conjI)
  qed
qed


lemma tree_roots_subset: "set (tree_roots rows) \<subseteq> set (map index rows)"
proof -
  have "set (map fst (filter (\<lambda>(idx, cnt). cnt = 0) (incoming_to_npc rows)))
      \<subseteq> set (map index rows)"
    by (auto simp: incoming_to_npc_def dict_keys_def)
  moreover have "index r \<in> set (map index rows)"
    if "find (\<lambda>r. \<not> is_pc_reply r) rows = Some r" for r
    using that by (auto simp: find_Some_iff)
  ultimately show ?thesis
    by (auto simp: tree_roots_def Let_def split: option.splits)
qed

lemma tree_components_spec:
  "\<exists>visited comps lbc. tree_components rows = Inr (visited, comps, lbc)
     \<and> comps = map (\<lambda>L. set (layer_nodes L)) lbc
     \<and> distinct (concat (map layer_nodes lbc))
     \<and> set (concat (map layer_nodes lbc)) = set (map index rows)"
proof -
  have "tree_inv rows ({}, [], [])"
    by (simp add: tree_inv_def)
  from tree_seeds_spec[OF tree_roots_subset this] obtain acc1 where
    a: "tree_seeds rows (tree_roots rows) ({}, [], []) = Inr acc1" "tree_inv rows acc1"
    by (elim exE conjE)
  from tree_seeds_spec[OF subset_refl a(2)] obtain acc2 where
    b: "tree_seeds rows (map index rows) acc1 = Inr acc2" "tree_inv rows acc2"
      "fst acc1 \<union> set (map index rows) \<subseteq> fst acc2"
    by (elim exE conjE)
  obtain v2 c2 l2 where acc2: "acc2 = (v2, c2, l2)"
    by (cases acc2) auto
  have e: "tree_components rows = Inr (v2, c2, l2)"
    using a(1) b(1) by (simp add: tree_components_def acc2)
  have c: "v2 = set (concat (map layer_nodes l2))
      \<and> distinct (concat (map layer_nodes l2))
      \<and> c2 = map (\<lambda>L. set (layer_nodes L)) l2 \<and> v2 \<subseteq> set (map index rows)"
    using b(2) unfolding tree_inv_def acc2 prod.case .
  note i = c[THEN conjunct1] c[THEN conjunct2, THEN conjunct1]
      c[THEN conjunct2, THEN conjunct2, THEN conjunct1]
      c[THEN conjunct2, THEN conjunct2, THEN conjunct2]
  have "set (map index rows) \<subseteq> v2"
    using b(3) unfolding acc2 by simp
  then have "v2 = set (map index rows)"
    using i(4) by blast
  then have s: "set (concat (map layer_nodes l2)) = set (map index rows)"
    using i(1) by simp
  show ?thesis
    using e i(3) i(2) s by (intro exI[of _ v2] exI[of _ c2] exI[of _ l2] conjI)
qed

lemma layer_assignment_spec:
  "\<exists>ntl layers. layer_assignment rows = Inr (ntl, layers) \<and> layers_agree ntl layers
     \<and> fst ` set ntl \<subseteq> set (map index rows)"
proof -
  have q: "fst ` set (root_queue rows) \<subseteq> set (map index rows)"
    by (auto simp: root_queue_def)
  have e: "layers_agree [] []"
    by (simp add: layers_agree_def layer_nodes_def)
  have "\<exists>ntl' layers'. layering rows (root_queue rows) [] [] = Inr (ntl', layers')
      \<and> layers_agree ntl' layers' \<and> fst ` set ntl' \<subseteq> set (map index rows)"
    using layering_spec[OF q e] by simp
  then show ?thesis
    unfolding layer_assignment_def .
qed

text \<open>
  Both loops end, cycles or not. For a row list of length \<open>n\<close> the layering loop of
  \<^verbatim>\<open>calculate_layout\<close> takes at most \<open>n * n + 2 * n\<close> turns and a search of
  \<^verbatim>\<open>_bfs_layers\<close> at most \<open>2 * n + 1\<close>; no node is assigned a layer twice; in the forest
  layout every index of the input is on exactly one layer of exactly one component.
\<close>

lemma layering_terminates:
  "(\<forall>fuel\<ge>length rows * length rows + 2 * length rows.
       layering_fuel fuel rows (root_queue rows) [] [] = Some (layer_assignment rows))
   \<and> (\<exists>ntl layers. layer_assignment rows = Inr (ntl, layers) \<and> layers_agree ntl layers
         \<and> fst ` set ntl \<subseteq> set (map index rows))
   \<and> (\<forall>fuel\<ge>2 * length rows + 1. \<forall>root_idx visited.
         bfs_layers_fuel fuel rows [(root_idx, 0)] visited {} []
           = Some (bfs_layers rows [(root_idx, 0)] visited {} []))
   \<and> (\<exists>visited comps lbc. tree_components rows = Inr (visited, comps, lbc)
         \<and> comps = map (\<lambda>L. set (layer_nodes L)) lbc
         \<and> distinct (concat (map layer_nodes lbc))
         \<and> set (concat (map layer_nodes lbc)) = set (map index rows))"
proof (intro conjI allI impI)
  fix fuel assume "length rows * length rows + 2 * length rows \<le> fuel"
  then show "layering_fuel fuel rows (root_queue rows) [] [] = Some (layer_assignment rows)"
    by (rule layering_bound)
next
  show "\<exists>ntl layers. layer_assignment rows = Inr (ntl, layers) \<and> layers_agree ntl layers
         \<and> fst ` set ntl \<subseteq> set (map index rows)"
    by (rule layer_assignment_spec)
next
  fix fuel root_idx visited assume "2 * length rows + 1 \<le> fuel"
  then show "bfs_layers_fuel fuel rows [(root_idx, 0)] visited {} []
           = Some (bfs_layers rows [(root_idx, 0)] visited {} [])"
    by (rule bfs_layers_bound)
next
  show "\<exists>visited comps lbc. tree_components rows = Inr (visited, comps, lbc)
         \<and> comps = map (\<lambda>L. set (layer_nodes L)) lbc
         \<and> distinct (concat (map layer_nodes lbc))
         \<and> set (concat (map layer_nodes lbc)) = set (map index rows)"
    by (rule tree_components_spec)
qed

lemma layering_terminates_cycle:
  "layering_fuel 24 rows_cycle (root_queue rows_cycle) [] []
     = Some (Inr ([(1, 0), (3, 0), (2, 1), (4, 1)], [(0, [1, 3]), (1, [2, 4])]))
   \<and> bfs_layers_fuel 9 rows_cycle [(1, 0)] {1} {} []
     = Some (Inr ({1, 2, 3, 4}, {1, 2, 3, 4}, [(0, [1]), (1, [2]), (2, [3]), (3, [4])]))"
proof -
  have l: "length rows_cycle = 4"
    by (simp add: rows_cycle_def)
  have "layer_assignment rows_cycle
      = Inr ([(1, 0), (3, 0), (2, 1), (4, 1)], [(0, [1, 3]), (1, [2, 4])])"
    by code_simp
  moreover have "bfs_layers rows_cycle [(1, 0)] {1} {} []
      = Inr ({1, 2, 3, 4}, {1, 2, 3, 4}, [(0, [1]), (1, [2]), (2, [3]), (3, [4])])"
    by code_simp
  moreover have "layering_fuel 24 rows_cycle (root_queue rows_cycle) [] []
      = Some (layer_assignment rows_cycle)"
    using layering_terminates[of rows_cycle] unfolding l by (elim conjE allE[of _ 24]) simp
  moreover have "bfs_layers_fuel 9 rows_cycle [(1, 0)] {1} {} []
      = Some (bfs_layers rows_cycle [(1, 0)] {1} {} [])"
    using bfs_layers_bound[of rows_cycle 9 1 "{1}"] by (simp add: l)
  ultimately show ?thesis
    by simp
qed

text \<open>
  Claim C5: the layering ends with every node assigned exactly one layer. In
  \<^verbatim>\<open>calculate_layout\<close> a reply that no layered NPC line owns is never queued: for a
  reply \<open>1\<close> that precedes the only NPC line \<open>2\<close> the loop ends with the single entry
  \<open>2 \<mapsto> 0\<close> in \<^verbatim>\<open>node_to_layer\<close>, and node \<open>1\<close> has no layer.
\<close>

theorem layering_orphan_unlayered:
  "snd (layered_layers rows_orphan) = Inr ([{1, 2}], [(2, 0)], [(0, [2])])
   \<and> 1 \<in> set (map index rows_orphan) \<and> (1::int) \<notin> fst ` set [(2, 0 :: int)]"
proof -
  have "snd (layered_layers rows_orphan) = Inr ([{1, 2}], [(2, 0)], [(0, [2])])"
    by code_simp
  then show ?thesis
    by (simp add: rows_orphan_def mk_row_def)
qed

section \<open>Adding and removing rows, undo and redo\<close>


lemma append_rows_collision:
  "append_rows data rows = Inl (e, data') \<Longrightarrow>
   \<exists>pre r post. rows = pre @ r # post \<and> data' = data @ pre \<and> e = ValueError (index r)
      \<and> index r \<in> set (map index (data @ pre))"
proof (induction rows arbitrary: data)
  case Nil
  then show ?case by simp
next
  case (Cons r rs)
  show ?case
  proof (cases "list_ex (\<lambda>x. index x = index r) data")
    case True
    then have "data' = data" "e = ValueError (index r)"
      using Cons.prems by auto
    moreover have "index r \<in> set (map index data)"
      using True by (auto simp: list_ex_iff image_iff) metis
    ultimately show ?thesis
      by (intro exI[of _ "[]"] exI[of _ r] exI[of _ rs]) simp
  next
    case False
    then have "append_rows (data @ [r]) rs = Inl (e, data')"
      using Cons.prems by simp
    from Cons.IH[OF this] obtain pre x post where
      "rs = pre @ x # post" "data' = (data @ [r]) @ pre" "e = ValueError (index x)"
      "index x \<in> set (map index ((data @ [r]) @ pre))"
      by blast
    then show ?thesis
      by (intro exI[of _ "r # pre"] exI[of _ x] exI[of _ post]) simp
  qed
qed





































text \<open>
  The position is also lost for a row that has a scene item while it is a hidden empty
  separator: the undo appends the row, but the visibility guard of
  \<^verbatim>\<open>_add_rows_and_items\<close> skips its item.
\<close>

lemma undo_hidden_row_lost:
  "\<exists>cmd s1 s2. delete_command st_hidden [1] = Inr cmd \<and> redo cmd st_hidden = Inr s1
      \<and> undo cmd s1 = Inr s2
      \<and> dlg_data s2 = dlg_data st_hidden
      \<and> nodes st_hidden 1 = Some (5, 5) \<and> nodes s2 1 = None"
proof -
  define cmd where "cmd = DeleteNodesCommand [mk_blank 1] (nodes st_hidden |` {1})"
  define s1 where "s1 = remove_rows_and_items [1] st_hidden"
  define s2 where "s2 = mark_modified (s1\<lparr>dlg_data := [mk_blank 1]\<rparr>)"
  have c: "delete_command st_hidden [1] = Inr cmd"
    by (simp add: delete_command_def cmd_def st_hidden_def mk_blank_def)
  have r: "redo cmd st_hidden = Inr s1"
    by (simp add: cmd_def s1_def mk_blank_def)
  have d1: "dlg_data s1 = []" "show_empty_nodes s1 = False" "nodes s1 1 = None"
    by (simp_all add: s1_def remove_rows_and_items_def Let_def mark_modified_def
        remove_items_only_def st_hidden_def mk_blank_def)
  have sep: "is_empty_separator (mk_blank 1)"
    by (simp add: is_empty_separator_def mk_blank_def is_pc_reply_def blank_def)
  have u: "undo cmd s1 = Inr s2"
    by (simp add: cmd_def add_rows_and_items_def d1 Let_def visible_rows_def
        mark_modified_def sep add_visible_def s2_def)
  have "dlg_data s2 = dlg_data st_hidden" "nodes st_hidden 1 = Some (5, 5)" "nodes s2 1 = None"
    by (simp_all add: s2_def mark_modified_def d1 st_hidden_def)
  with c r u show ?thesis
    by (intro exI[of _ cmd] exI[of _ s1] exI[of _ s2]) simp
qed

text \<open>
  Claim C6: a batch with a colliding index must leave the collection unchanged. On the
  collection \<open>[1]\<close> and the batch \<open>[5, 1]\<close> the code raises at the second row with
  row \<open>5\<close> already appended.
\<close>

theorem add_rows_partial_mutation:
  "add_rows_and_items [mk_row 5 None None, mk_row 1 None None] Map.empty st_one
     = Inl (ValueError 1, st_one\<lparr>dlg_data := [mk_row 1 None None, mk_row 5 None None]\<rparr>)
   \<and> dlg_data st_one = [mk_row 1 None None]"
  by (simp add: add_rows_and_items_def st_one_def mk_row_def)
section \<open>Renumbering keeps every reference on its node\<close>

lemma shift_row_index: "index (shift_row s d r) = shift_idx s d (index r)"
  by (simp add: shift_row_def shift_idx_def Let_def split: option.splits)

lemma shift_row_nxt: "nxt (shift_row s d r) = map_option (shift_idx s d) (nxt r)"
  by (simp add: shift_row_def shift_idx_def Let_def is_pc_reply_def split: option.splits)

lemma shift_row_parent:
  "parent_npc (shift_row s d r) = map_option (shift_idx s d) (parent_npc r)"
  by (simp add: shift_row_def shift_idx_def Let_def is_pc_reply_def split: option.splits)

lemma shift_idx_inj: "0 \<le> d \<Longrightarrow> (shift_idx s d a = shift_idx s d b) = (a = b)"
  by (auto simp: shift_idx_def split: if_splits)

lemma resolves_shift:
  "resolves rows ref \<Longrightarrow>
   resolves (shift_indices_from s d rows) (map_option (shift_idx s d) ref)"
  by (cases ref) (auto simp: resolves_def shift_indices_from_def shift_row_index)

lemma refs_ok_shift:
  assumes "refs_ok rows"
  shows "refs_ok (shift_indices_from s d rows)"
proof -
  define rows' where "rows' = shift_indices_from s d rows"
  have "resolves rows' (nxt (shift_row s d r)) \<and> resolves rows' (parent_npc (shift_row s d r))"
    if "r \<in> set rows" for r
    using that assms unfolding rows'_def
    by (simp add: refs_ok_def list_all_iff shift_row_nxt shift_row_parent resolves_shift)
  moreover have "set rows' = shift_row s d ` set rows"
    by (simp add: rows'_def shift_indices_from_def)
  ultimately have "refs_ok rows'"
    by (simp add: refs_ok_def list_all_iff)
  then show ?thesis
    by (simp add: rows'_def)
qed

lemma shift_same_target:
  assumes "i < length rows" "j < length rows"
  shows "(nxt (shift_indices_from s 1 rows ! i)
            = Some (index (shift_indices_from s 1 rows ! j)))
          = (nxt (rows ! i) = Some (index (rows ! j)))"
    and "(parent_npc (shift_indices_from s 1 rows ! i)
            = Some (index (shift_indices_from s 1 rows ! j)))
          = (parent_npc (rows ! i) = Some (index (rows ! j)))"
  using assms
  by (auto simp: shift_indices_from_def shift_row_nxt shift_row_parent shift_row_index
      shift_idx_inj)

text \<open>
  Claim C7. In a dataset whose every non-null \<open>next\<close> and \<open>parentLine\<close> names an existing
  index, renumbering with any start index and delta \<open>+1\<close> leaves every such reference
  resolving, and a reference names the row at position \<open>j\<close> afterwards exactly when it
  named that row before: nothing dangles and nothing points to a stale index.
\<close>

theorem renumber_integrity:
  assumes "refs_ok rows"
  shows "refs_ok (shift_indices_from start_id 1 rows)
    \<and> length (shift_indices_from start_id 1 rows) = length rows
    \<and> (\<forall>i<length rows. \<forall>j<length rows.
          ((nxt (shift_indices_from start_id 1 rows ! i)
             = Some (index (shift_indices_from start_id 1 rows ! j)))
            = (nxt (rows ! i) = Some (index (rows ! j))))
        \<and> ((parent_npc (shift_indices_from start_id 1 rows ! i)
             = Some (index (shift_indices_from start_id 1 rows ! j)))
            = (parent_npc (rows ! i) = Some (index (rows ! j)))))"
  using refs_ok_shift[OF assms, of start_id 1] shift_same_target[of _ rows _ start_id]
  by (simp add: shift_indices_from_def)

theorem renumber_integrity_witness:
  "refs_ok ex_shift \<and> refs_ok (shift_indices_from 10 1 ex_shift)
   \<and> map index (shift_indices_from 10 1 ex_shift) = [9, 11, 12]
   \<and> map nxt (shift_indices_from 10 1 ex_shift) = [None, Some 12, None]
   \<and> map parent_npc (shift_indices_from 10 1 ex_shift) = [None, Some 9, None]"
proof -
  have h: "refs_ok ex_shift"
    by (simp add: ex_shift_def refs_ok_def resolves_def mk_row_def)
  show ?thesis
    using h renumber_integrity[OF h, of 10]
    by (simp add: ex_shift_def shift_indices_from_def shift_row_def mk_row_def is_pc_reply_def)
qed


section \<open>Round trips through the two file formats\<close>

subsection \<open>JSON\<close>




subsection \<open>Integers written and read back\<close>


















lemma sanitize_set: "c \<noteq> CHR '']'' \<Longrightarrow> c \<in> set (sanitize v) \<Longrightarrow> c \<in> set v"
  by (auto simp: sanitize_def split: if_splits)

subsection \<open>A written line is matched field by field\<close>





















subsection \<open>Parent links\<close>





end
